theory Spec2Isabelle
  imports Main "HOL-Library.Sublist" "HOL-Library.AList"
begin

section \<open>Python values used by index_concepts.py\<close>

text \<open>
  The indexer is a Python script. Its strings are sequences of code points; they are
  modelled as \<^typ>\<open>string\<close>, a list whose elements are the code points 0 to 255 (ASCII
  and the Latin-1 supplement), so that the length and the indices of a string count code
  points as Python does. Its integers are modelled as \<^typ>\<open>int\<close>, and the one exception
  its per-line loop can raise, an out-of-range string index, as a value of the type
  \<open>error\<close>.
\<close>

datatype error = IndexError

definition newline :: char where
  "newline = CHR 0x0A"

definition backslash :: char where
  "backslash = CHR 0x5C"

text \<open>\<^verbatim>\<open>s[i]\<close>: a negative index counts from the end; out of range raises.\<close>

definition py_index :: "'a list \<Rightarrow> int \<Rightarrow> error + 'a" where
  "py_index xs i =
     (if 0 \<le> i \<and> i < int (length xs) then Inr (xs ! nat i)
      else if i < 0 \<and> - int (length xs) \<le> i then Inr (xs ! nat (int (length xs) + i))
      else Inl IndexError)"

text \<open>A slice bound is clamped to the string: \<^verbatim>\<open>s[:i]\<close> and \<^verbatim>\<open>s[i:]\<close> never raise.\<close>

definition slice_bound :: "nat \<Rightarrow> int \<Rightarrow> nat" where
  "slice_bound n i = (if i < 0 then nat (max 0 (int n + i)) else min n (nat i))"

definition py_slice_to :: "'a list \<Rightarrow> int \<Rightarrow> 'a list" where
  "py_slice_to xs hi = take (slice_bound (length xs) hi) xs"

definition py_slice_from :: "'a list \<Rightarrow> int \<Rightarrow> 'a list" where
  "py_slice_from xs lo = drop (slice_bound (length xs) lo) xs"

text \<open>\<^verbatim>\<open>s.count(c)\<close> for a one-character \<open>c\<close>.\<close>

definition str_count :: "string \<Rightarrow> char \<Rightarrow> int" where
  "str_count s c = int (count_list s c)"

text \<open>
  The character classes of the regular expressions. \<^verbatim>\<open>[a-zA-Z]\<close> is the two ASCII
  ranges. \<^verbatim>\<open>\w\<close> in a pattern applied to a \<^verbatim>\<open>str\<close> is Unicode-aware: it holds of the
  alphanumeric code points and the underscore. Among the code points 0 to 255 these are
  the ASCII letters and digits, the underscore, the ordinal indicators 170 and 186, the
  superscript digits 178, 179 and 185, the micro sign 181, the fractions 188 to 190, and
  the accented letters 192 to 255 except the multiplication sign 215 and the division
  sign 247. \<^verbatim>\<open>\W\<close> is the complement.
\<close>

definition is_letter :: "char \<Rightarrow> bool" where
  "is_letter c =
     (let n = (of_char c :: nat) in (65 \<le> n \<and> n \<le> 90) \<or> (97 \<le> n \<and> n \<le> 122))"

definition is_word_char :: "char \<Rightarrow> bool" where
  "is_word_char c =
     (let n = (of_char c :: nat)
      in is_letter c \<or> (48 \<le> n \<and> n \<le> 57) \<or> n = 95
         \<or> n = 170 \<or> n = 178 \<or> n = 179 \<or> n = 181 \<or> n = 185 \<or> n = 186
         \<or> (188 \<le> n \<and> n \<le> 190)
         \<or> (192 \<le> n \<and> n \<le> 214) \<or> (216 \<le> n \<and> n \<le> 246) \<or> (248 \<le> n \<and> n \<le> 255))"

subsection \<open>defaultdict\<close>

text \<open>
  A \<^verbatim>\<open>defaultdict\<close> is an association list in insertion order together with the default
  its factory returns. Reading a missing key stores the default under it (\<open>dd_touch\<close>)
  before returning it.
\<close>

type_synonym 'v defaultdict = "(string \<times> 'v) list"

definition dd_get :: "'v \<Rightarrow> 'v defaultdict \<Rightarrow> string \<Rightarrow> 'v" where
  "dd_get d m k = (case map_of m k of None \<Rightarrow> d | Some v \<Rightarrow> v)"

definition dd_touch :: "'v \<Rightarrow> 'v defaultdict \<Rightarrow> string \<Rightarrow> 'v defaultdict" where
  "dd_touch d m k = (case map_of m k of None \<Rightarrow> m @ [(k, d)] | Some v \<Rightarrow> m)"

definition dd_set :: "'v defaultdict \<Rightarrow> string \<Rightarrow> 'v \<Rightarrow> 'v defaultdict" where
  "dd_set m k v = AList.update k v m"

text \<open>\<^verbatim>\<open>m[k] += n\<close>\<close>

definition dd_add :: "int \<Rightarrow> int defaultdict \<Rightarrow> string \<Rightarrow> int \<Rightarrow> int defaultdict" where
  "dd_add d m k n = dd_set m k (dd_get d m k + n)"

section \<open>Constants\<close>

definition DISTANCE :: int where
  "DISTANCE = 200"

definition THESIS_STOPWORDS :: "string set" where
  "THESIS_STOPWORDS = set [
     ''entity'',
     ''information'',
     ''document'',
     ''model'',
     ''hypergraph-of-entity'',
     ''node'',
     ''entity-oriented search'',
     ''hypergraph'',
     ''ranking'',
     ''term'']"

section \<open>Environment tracking\<close>

text \<open>
  \<open>check_begin\<close> and \<open>check_end\<close> apply \<^verbatim>\<open>re.match\<close> with the pattern
  \<^verbatim>\<open>.*\\begin{(.*?)}.*\<close> (respectively \<^verbatim>\<open>.*\\end{(.*?)}.*\<close>). The matcher backtracks:
  the leading greedy \<^verbatim>\<open>.*\<close> (which does not cross a newline) tries its longest
  extent first, then each shorter one; after the literal keyword, the lazy group takes
  the shortest run of non-newline characters that a closing brace follows.
\<close>

fun first_some :: "('a \<Rightarrow> 'b option) \<Rightarrow> 'a list \<Rightarrow> 'b option" where
  "first_some f [] = None"
| "first_some f (x # xs) = (case f x of Some y \<Rightarrow> Some y | None \<Rightarrow> first_some f xs)"

definition lazy_group :: "string \<Rightarrow> string option" where
  "lazy_group s =
     (let g = takeWhile (\<lambda>c. c \<noteq> CHR ''}'' \<and> c \<noteq> newline) s
      in case drop (length g) s of
           [] \<Rightarrow> None
         | c # _ \<Rightarrow> if c = CHR ''}'' then Some g else None)"

definition delim_at :: "string \<Rightarrow> string \<Rightarrow> nat \<Rightarrow> string option" where
  "delim_at kw line i =
     (if prefix kw (drop i line) then lazy_group (drop (i + length kw) line) else None)"

definition re_match_delim :: "string \<Rightarrow> string \<Rightarrow> string option" where
  "re_match_delim kw line =
     first_some (delim_at kw line)
       (rev [0..<Suc (length (takeWhile (\<lambda>c. c \<noteq> newline) line))])"

definition begin_kw :: string where
  "begin_kw = backslash # ''begin{''"

definition end_kw :: string where
  "end_kw = backslash # ''end{''"

definition check_begin :: "string \<Rightarrow> int defaultdict \<Rightarrow> string list \<Rightarrow> int defaultdict" where
  "check_begin line count_env allowed_env =
     (case re_match_delim begin_kw line of
        Some g \<Rightarrow> if g \<notin> set allowed_env then dd_add 0 count_env g 1 else count_env
      | None \<Rightarrow> count_env)"

definition check_end :: "string \<Rightarrow> int defaultdict \<Rightarrow> string list \<Rightarrow> int defaultdict" where
  "check_end line count_env allowed_env =
     (case re_match_delim end_kw line of
        Some g \<Rightarrow> if g \<notin> set allowed_env then dd_add 0 count_env g (- 1) else count_env
      | None \<Rightarrow> count_env)"

fun is_inside_env :: "int defaultdict \<Rightarrow> bool" where
  "is_inside_env [] = False"
| "is_inside_env ((k, v) # rest) = (if v > 0 then True else is_inside_env rest)"

section \<open>Match validation\<close>

definition is_inside_command :: "string \<Rightarrow> int \<Rightarrow> int \<Rightarrow> char \<Rightarrow> char \<Rightarrow> bool" where
  "is_inside_command line start_index end_index open_char close_char =
     (let before_match = py_slice_to line start_index;
          after_match = py_slice_from line (end_index + 1);
          before_count = str_count before_match open_char - str_count before_match close_char;
          after_count = str_count after_match open_char - str_count after_match close_char
      in before_count > 0 \<and> after_count < 0)"

text \<open>
  \<open>is_part_of_command\<close> matches \<^verbatim>\<open>^[a-zA-Z]*?\\.*\<close> against the reversed line's slice
  \<^verbatim>\<open>rev_line[-end_index:]\<close>: the lazy letter run is extended one letter at a time until a
  backslash follows, so the pattern matches exactly when the first character that is
  not a letter is a backslash.
\<close>

definition re_match_command :: "string \<Rightarrow> bool" where
  "re_match_command s =
     (case dropWhile is_letter s of [] \<Rightarrow> False | c # _ \<Rightarrow> c = backslash)"

definition is_part_of_command :: "string \<Rightarrow> int \<Rightarrow> bool" where
  "is_part_of_command line end_index =
     (let rev_line = rev line in re_match_command (py_slice_from rev_line (- end_index)))"

definition is_invalid_concept :: "string \<Rightarrow> bool" where
  "is_invalid_concept concept = (sublist ''/'' concept \<or> sublist ''et al'' concept)"

definition can_annotate :: "string list option \<Rightarrow> int \<Rightarrow> int \<Rightarrow> string \<Rightarrow> bool" where
  "can_annotate methods last_line_nr current_line_nr concept =
     (case methods of
        None \<Rightarrow> True
      | Some ms \<Rightarrow>
          (let cond = True;
               cond = (if ''dist'' \<in> set ms
                       then cond \<and> (last_line_nr = - 1 \<or> current_line_nr > last_line_nr + DISTANCE)
                       else cond);
               cond = (if ''stop'' \<in> set ms
                       then cond \<and> concept \<notin> THESIS_STOPWORDS
                       else cond)
           in cond))"

section \<open>Annotating one line\<close>

text \<open>
  The statistics are a \<^verbatim>\<open>defaultdict\<close> read and written under five literal integer
  keys and one key holding the per-concept distribution; each key is a field here.
\<close>

record stats =
  index_terms :: int
  edited_files :: int
  environment_blocks_skipped :: int
  invalid_matches :: int
  indexed_matches :: int
  annotation_distribution :: "int defaultdict"

text \<open>What the loop over the matches of one line reads and writes.\<close>

record loop_state =
  cur_line :: string
  total_annotation_length :: int
  cur_stats :: stats
  last_line :: "int defaultdict"

type_synonym match = "int \<times> string \<times> string"

definition annotation :: "string \<Rightarrow> string" where
  "annotation concept = backslash # ''index{'' @ concept @ ''}''"

text \<open>The four rejections that count a match as invalid.\<close>

definition is_invalid_match :: "string \<Rightarrow> int \<Rightarrow> int \<Rightarrow> string \<Rightarrow> bool" where
  "is_invalid_match line start_index end_index concept =
     (is_invalid_concept concept
      \<or> is_inside_command line start_index end_index (CHR ''{'') (CHR ''}'')
      \<or> is_inside_command line start_index end_index (CHR ''['') (CHR '']'')
      \<or> is_part_of_command line end_index)"

text \<open>The body of the innermost \<^verbatim>\<open>if\<close>: insert the marker and record the annotation.\<close>

definition insert_annotation :: "int \<Rightarrow> int \<Rightarrow> string \<Rightarrow> loop_state \<Rightarrow> loop_state" where
  "insert_annotation line_nr end_index concept s =
     (let line = cur_line s;
          line = py_slice_to line (end_index + 1) @ annotation concept
                   @ py_slice_from line (end_index + 1);
          st = cur_stats s;
          st = st\<lparr>indexed_matches := indexed_matches st + 1\<rparr>;
          st = st\<lparr>annotation_distribution := dd_add 0 (annotation_distribution st) concept 1\<rparr>
      in s\<lparr>cur_line := line,
           total_annotation_length := total_annotation_length s + int (length (annotation concept)),
           cur_stats := st,
           last_line := dd_set (last_line s) concept line_nr\<rparr>)"

text \<open>
  One iteration of the loop over \<^verbatim>\<open>matcher.iter_long(line)\<close>. The conjunction of the
  innermost \<^verbatim>\<open>if\<close> is evaluated left to right: the character after the match is
  read first, the one before the match only if the first test passed, and
  \<^verbatim>\<open>last_line[concept]\<close> only if both did.
\<close>

definition count_invalid :: "loop_state \<Rightarrow> loop_state" where
  "count_invalid s =
     s\<lparr>cur_stats := (cur_stats s)\<lparr>invalid_matches := invalid_matches (cur_stats s) + 1\<rparr>\<rparr>"

text \<open>Reading \<^verbatim>\<open>stats['annotation distribution'][concept]\<close> and \<^verbatim>\<open>last_line[concept]\<close>.\<close>

definition read_distribution :: "string \<Rightarrow> loop_state \<Rightarrow> loop_state" where
  "read_distribution concept s =
     s\<lparr>cur_stats := (cur_stats s)\<lparr>annotation_distribution :=
          dd_touch 0 (annotation_distribution (cur_stats s)) concept\<rparr>\<rparr>"

definition read_last_line :: "string \<Rightarrow> loop_state \<Rightarrow> loop_state" where
  "read_last_line concept s = s\<lparr>last_line := dd_touch (- 1) (last_line s) concept\<rparr>"

fun annotate_match ::
  "string list option \<Rightarrow> int \<Rightarrow> loop_state \<Rightarrow> match \<Rightarrow> error + loop_state" where
  "annotate_match methods line_nr s (reported_end, match, concept) =
     (let line = cur_line s;
          end_index = reported_end + total_annotation_length s;
          start_index = end_index - int (length match) + 1
      in (if is_invalid_match line start_index end_index concept
          then Inr (count_invalid s)
          else
            (let s = read_distribution concept s
             in (case py_index line (end_index + 1) of
                   Inl e \<Rightarrow> Inl e
                 | Inr after_char \<Rightarrow>
                     (if is_word_char after_char then Inr s
                      else
                        (case py_index line (end_index - int (length match)) of
                           Inl e \<Rightarrow> Inl e
                         | Inr before_char \<Rightarrow>
                             (if is_word_char before_char then Inr s
                              else
                                (let s = read_last_line concept s
                                 in (if can_annotate methods
                                          (dd_get (- 1) (last_line s) concept) line_nr concept
                                     then Inr (insert_annotation line_nr end_index concept s)
                                     else Inr s)))))))))"

declare annotate_match.simps [simp del]

fun annotate_matches ::
  "string list option \<Rightarrow> int \<Rightarrow> loop_state \<Rightarrow> match list \<Rightarrow> error + loop_state" where
  "annotate_matches methods line_nr s [] = Inr s"
| "annotate_matches methods line_nr s (x # xs) =
     (case annotate_match methods line_nr s x of
        Inl e \<Rightarrow> Inl e
      | Inr s' \<Rightarrow> annotate_matches methods line_nr s' xs)"

section \<open>Files and the whole run\<close>

text \<open>
  The multi-pattern matcher is a library automaton; the script only iterates over what
  \<^verbatim>\<open>iter_long\<close> reports for the line as it was read. It is a parameter \<open>matcher\<close> of the
  model: a function from the line to the reported \<open>(end_index, (match, concept))\<close> list.
\<close>

record file_state =
  file_stats :: stats
  file_last_line :: "int defaultdict"
  count_env :: "int defaultdict"
  tmp_f :: "string list"

definition process_line ::
  "(string \<Rightarrow> match list) \<Rightarrow> string list \<Rightarrow> string list option \<Rightarrow>
     file_state \<Rightarrow> int \<Rightarrow> string \<Rightarrow> error + file_state" where
  "process_line matcher allowed_env methods fs line_nr line =
     (let ce = check_begin line (count_env fs) allowed_env;
          ce = check_end line ce allowed_env;
          fs = fs\<lparr>count_env := ce\<rparr>
      in if is_inside_env ce
         then Inr (fs\<lparr>tmp_f := tmp_f fs @ [line],
                     file_stats := (file_stats fs)\<lparr>environment_blocks_skipped :=
                        environment_blocks_skipped (file_stats fs) + 1\<rparr>\<rparr>)
         else
           (case annotate_matches methods line_nr
                   \<lparr>cur_line = line, total_annotation_length = 0,
                    cur_stats = file_stats fs, last_line = file_last_line fs\<rparr>
                   (matcher line) of
              Inl e \<Rightarrow> Inl e
            | Inr s \<Rightarrow> Inr (fs\<lparr>tmp_f := tmp_f fs @ [cur_line s],
                               file_stats := cur_stats s,
                               file_last_line := last_line s\<rparr>)))"

text \<open>The loop over \<^verbatim>\<open>enumerate(tex_f)\<close>, from line number \<open>line_nr\<close> on.\<close>

fun process_lines ::
  "(string \<Rightarrow> match list) \<Rightarrow> string list \<Rightarrow> string list option \<Rightarrow>
     file_state \<Rightarrow> int \<Rightarrow> string list \<Rightarrow> error + file_state" where
  "process_lines matcher allowed_env methods fs line_nr [] = Inr fs"
| "process_lines matcher allowed_env methods fs line_nr (line # rest) =
     (case process_line matcher allowed_env methods fs line_nr line of
        Inl e \<Rightarrow> Inl e
      | Inr fs' \<Rightarrow> process_lines matcher allowed_env methods fs' (line_nr + 1) rest)"

text \<open>
  One file: a file is the list of its lines, each with its line terminator, as iterating
  over the open file yields them. The result is the statistics and the lines written,
  which replace the file.
\<close>

definition process_file ::
  "(string \<Rightarrow> match list) \<Rightarrow> string list \<Rightarrow> string list option \<Rightarrow>
     stats \<Rightarrow> string list \<Rightarrow> error + (stats \<times> string list)" where
  "process_file matcher allowed_env methods st tex_f =
     (let st = st\<lparr>edited_files := edited_files st + 1\<rparr>
      in case process_lines matcher allowed_env methods
                \<lparr>file_stats = st, file_last_line = [], count_env = [], tmp_f = []\<rparr> 0 tex_f of
           Inl e \<Rightarrow> Inl e
         | Inr fs \<Rightarrow> Inr (file_stats fs, tmp_f fs))"

text \<open>
  The loop over the files to edit, in their sorted order. The statistics are threaded
  from one file to the next; the result lists the rewritten files.
\<close>

fun process_files ::
  "(string \<Rightarrow> match list) \<Rightarrow> string list \<Rightarrow> string list option \<Rightarrow>
     stats \<Rightarrow> string list list \<Rightarrow> error + (stats \<times> string list list)" where
  "process_files matcher allowed_env methods st [] = Inr (st, [])"
| "process_files matcher allowed_env methods st (f # fs) =
     (case process_file matcher allowed_env methods st f of
        Inl e \<Rightarrow> Inl e
      | Inr (st', out) \<Rightarrow>
          (case process_files matcher allowed_env methods st' fs of
             Inl e \<Rightarrow> Inl e
           | Inr (st'', outs) \<Rightarrow> Inr (st'', out # outs)))"

text \<open>The statistics when the first file is opened: one index term per row of the table.\<close>

definition initial_stats :: "nat \<Rightarrow> stats" where
  "initial_stats rows =
     \<lparr>index_terms = int rows, edited_files = 0, environment_blocks_skipped = 0,
      invalid_matches = 0, indexed_matches = 0, annotation_distribution = []\<rparr>"

definition index_run ::
  "(string \<Rightarrow> match list) \<Rightarrow> nat \<Rightarrow> string list \<Rightarrow> string list option \<Rightarrow>
     string list list \<Rightarrow> error + (stats \<times> string list list)" where
  "index_run matcher rows allowed_env methods files =
     process_files matcher allowed_env methods (initial_stats rows) files"

section \<open>The matcher's contract\<close>

text \<open>
  Modelled from the spec: the multi-pattern matcher, a library automaton that is not part
  of the repository. For a line it reports \<open>(end_index, (match, concept))\<close> in left-to-right
  order of end position; at each end position the longest registered surface form ending
  there is reported. The table lists the \<open>(match, concept)\<close> rows in the order they were
  added; a later row with the same match replaces an earlier one. The theorems below hold
  for every matcher; this one supplies concrete runs.
\<close>

definition longest_ending_at ::
  "(string \<times> string) list \<Rightarrow> string \<Rightarrow> nat \<Rightarrow> (string \<times> string) option" where
  "longest_ending_at table line e =
     fold (\<lambda>(m, c) best.
             if m \<noteq> [] \<and> suffix m (take (Suc e) line)
                \<and> (case best of None \<Rightarrow> True | Some (m', c') \<Rightarrow> length m' \<le> length m)
             then Some (m, c) else best)
          table None"

definition iter_long :: "(string \<times> string) list \<Rightarrow> string \<Rightarrow> match list" where
  "iter_long table line =
     concat (map (\<lambda>e. case longest_ending_at table line e of
                         None \<Rightarrow> []
                       | Some (m, c) \<Rightarrow> [(int e, m, c)])
                 [0..<length line])"

section \<open>Closed delimiters\<close>

text \<open>
  For the statement about the environment tracker: \<open>closed_delimiter_in kw s\<close> holds
  when the keyword occurs in \<open>s\<close> before any newline and a closing brace follows the
  occurrence on the same line.
\<close>

definition closed_delimiter_in :: "string \<Rightarrow> string \<Rightarrow> bool" where
  "closed_delimiter_in kw s =
     (\<exists>u v. s = u @ kw @ v \<and> newline \<notin> set u
        \<and> CHR ''}'' \<in> set (takeWhile (\<lambda>c. c \<noteq> newline) v))"

section \<open>The markers of one line\<close>

text \<open>
  \<open>reconstruct pos line acc\<close> is the original line from \<open>pos\<close> on, cut after each
  reported end offset of \<open>acc\<close>, with the marker of the concept put at each cut.
  \<open>accepted\<close> is used in the proofs only: it lists, in order, the iterations of the loop
  that raised the count of indexed matches, each as the end offset the matcher reported
  and the concept.
\<close>

fun accepted ::
  "string list option \<Rightarrow> int \<Rightarrow> loop_state \<Rightarrow> match list \<Rightarrow> (int \<times> string) list" where
  "accepted methods line_nr s [] = []"
| "accepted methods line_nr s (x # xs) =
     (case annotate_match methods line_nr s x of
        Inl e \<Rightarrow> []
      | Inr s' \<Rightarrow>
          (if indexed_matches (cur_stats s') = indexed_matches (cur_stats s) then []
           else [(fst x, snd (snd x))])
          @ accepted methods line_nr s' xs)"

fun reconstruct :: "nat \<Rightarrow> string \<Rightarrow> (int \<times> string) list \<Rightarrow> string" where
  "reconstruct pos line [] = drop pos line"
| "reconstruct pos line ((e, concept) # rest) =
     take (nat (e + 1) - pos) (drop pos line) @ annotation concept
       @ reconstruct (nat (e + 1)) line rest"

definition markers_length :: "(int \<times> string) list \<Rightarrow> int" where
  "markers_length acc = sum_list (map (\<lambda>(e, concept). int (length (annotation concept))) acc)"

text \<open>
  The markers a line is due, stated from the line as it was read. A match is due a marker
  when, on the line rebuilt from the markers due so far and at its reported end offset
  plus their total length, the validator accepts it, the characters just after its end
  and just before its start exist and are non-word characters, and the throttle allows
  its concept; the last-annotated line of a concept already marked on this line is this
  line. \<open>markers_due\<close> goes through the reported matches from left to right.
\<close>

definition marker_due ::
  "string list option \<Rightarrow> int \<Rightarrow> string \<Rightarrow> int \<Rightarrow> int \<Rightarrow> string \<Rightarrow> string \<Rightarrow> bool" where
  "marker_due methods line_nr cur end_index last_nr match concept =
     (\<not> is_invalid_match cur (end_index - int (length match) + 1) end_index concept
      \<and> (case py_index cur (end_index + 1) of
             Inl err \<Rightarrow> False | Inr a \<Rightarrow> \<not> is_word_char a)
      \<and> (case py_index cur (end_index - int (length match)) of
             Inl err \<Rightarrow> False | Inr b \<Rightarrow> \<not> is_word_char b)
      \<and> can_annotate methods last_nr line_nr concept)"

definition markers_step ::
  "string list option \<Rightarrow> int \<Rightarrow> string \<Rightarrow> (string \<Rightarrow> int) \<Rightarrow>
     (int \<times> string) list \<Rightarrow> match \<Rightarrow> (int \<times> string) list" where
  "markers_step methods line_nr line last_nr acc x =
     (case x of (e, m, c) \<Rightarrow>
        if marker_due methods line_nr (reconstruct 0 line acc) (e + markers_length acc)
             (if c \<in> snd ` set acc then line_nr else last_nr c) m c
        then acc @ [(e, c)] else acc)"

definition markers_due ::
  "string list option \<Rightarrow> int \<Rightarrow> string \<Rightarrow> (string \<Rightarrow> int) \<Rightarrow>
     match list \<Rightarrow> (int \<times> string) list" where
  "markers_due methods line_nr line last_nr xs =
     foldl (markers_step methods line_nr line last_nr) [] xs"

section \<open>Relations between states\<close>

text \<open>
  Two notions for the statements about whole runs. \<open>counts_grow st st'\<close>: no statistic of
  \<open>st'\<close> is below its value in \<open>st\<close>. \<open>same_but_stats\<close> and \<open>same_file_but_stats\<close>: two
  states agree on everything except the statistics they carry.
\<close>

definition counts_grow :: "stats \<Rightarrow> stats \<Rightarrow> bool" where
  "counts_grow st st' =
     (index_terms st' = index_terms st
      \<and> edited_files st \<le> edited_files st'
      \<and> environment_blocks_skipped st \<le> environment_blocks_skipped st'
      \<and> invalid_matches st \<le> invalid_matches st'
      \<and> indexed_matches st \<le> indexed_matches st'
      \<and> (\<forall>k. dd_get 0 (annotation_distribution st) k
               \<le> dd_get 0 (annotation_distribution st') k))"

text \<open>
  \<open>stats_plus base d st\<close>: every count and every concept's frequency of \<open>st\<close> is its
  value in \<open>base\<close> plus its value in \<open>d\<close>. \<open>file_counts\<close> is what the lines of one file
  count on their own: the statistics after the loop over the file's lines, started from
  zero counts, an empty distribution, an empty last-annotated-line map and empty
  environment counters.
\<close>

definition stats_plus :: "stats \<Rightarrow> stats \<Rightarrow> stats \<Rightarrow> bool" where
  "stats_plus base d st =
     (index_terms st = index_terms base + index_terms d
      \<and> edited_files st = edited_files base + edited_files d
      \<and> environment_blocks_skipped st =
          environment_blocks_skipped base + environment_blocks_skipped d
      \<and> invalid_matches st = invalid_matches base + invalid_matches d
      \<and> indexed_matches st = indexed_matches base + indexed_matches d
      \<and> (\<forall>k. dd_get 0 (annotation_distribution st) k =
               dd_get 0 (annotation_distribution base) k
                 + dd_get 0 (annotation_distribution d) k))"

definition file_counts ::
  "(string \<Rightarrow> match list) \<Rightarrow> string list \<Rightarrow> string list option \<Rightarrow> string list \<Rightarrow> stats" where
  "file_counts matcher allowed_env methods tex_f =
     (case process_lines matcher allowed_env methods
             \<lparr>file_stats = initial_stats 0, file_last_line = [], count_env = [], tmp_f = []\<rparr>
             0 tex_f of
        Inl e \<Rightarrow> initial_stats 0
      | Inr fs \<Rightarrow> file_stats fs)"

definition same_but_stats :: "loop_state \<Rightarrow> loop_state \<Rightarrow> bool" where
  "same_but_stats s t =
     (cur_line s = cur_line t
      \<and> total_annotation_length s = total_annotation_length t
      \<and> last_line s = last_line t)"

definition same_file_but_stats :: "file_state \<Rightarrow> file_state \<Rightarrow> bool" where
  "same_file_but_stats fs gs =
     (file_last_line fs = file_last_line gs \<and> count_env fs = count_env gs \<and> tmp_f fs = tmp_f gs)"

section \<open>Facts about the Python primitives\<close>

lemma py_index_nonneg:
  "0 \<le> i \<Longrightarrow>
   py_index xs i = (if i < int (length xs) then Inr (xs ! nat i) else Inl IndexError)"
  by (simp add: py_index_def)

lemma py_index_minus_one: "xs \<noteq> [] \<Longrightarrow> py_index xs (- 1) = Inr (last xs)"
  by (cases xs rule: rev_cases) (simp_all add: py_index_def)

lemma py_slice_to_nonneg: "0 \<le> i \<Longrightarrow> py_slice_to xs i = take (nat i) xs"
  by (simp add: py_slice_to_def slice_bound_def min_def)

lemma py_slice_from_nonneg: "0 \<le> i \<Longrightarrow> py_slice_from xs i = drop (nat i) xs"
  by (simp add: py_slice_from_def slice_bound_def min_def)

lemma dd_get_touch [simp]: "dd_get d (dd_touch d m k) k' = dd_get d m k'"
  by (auto simp: dd_get_def dd_touch_def map_add_def split: option.splits)

lemma dd_get_set: "dd_get d (dd_set m k v) k' = (if k' = k then v else dd_get d m k')"
  by (simp add: dd_get_def dd_set_def update_conv')

lemma dd_get_add:
  "dd_get d (dd_add d m k n) k' = (if k' = k then dd_get d m k + n else dd_get d m k')"
  by (simp add: dd_add_def dd_get_set)

section \<open>One iteration of the match loop\<close>

lemma annotate_match_invalid:
  "is_invalid_match (cur_line s) (e + total_annotation_length s - int (length m) + 1)
      (e + total_annotation_length s) c \<Longrightarrow>
   annotate_match methods line_nr s (e, m, c) = Inr (count_invalid s)"
  by (simp add: annotate_match.simps Let_def)

lemma annotate_match_valid:
  "\<not> is_invalid_match (cur_line s) (e + total_annotation_length s - int (length m) + 1)
      (e + total_annotation_length s) c \<Longrightarrow>
   annotate_match methods line_nr s (e, m, c) =
     (case py_index (cur_line s) (e + total_annotation_length s + 1) of
        Inl err \<Rightarrow> Inl err
      | Inr after_char \<Rightarrow>
          if is_word_char after_char then Inr (read_distribution c s)
          else
            (case py_index (cur_line s) (e + total_annotation_length s - int (length m)) of
               Inl err \<Rightarrow> Inl err
             | Inr before_char \<Rightarrow>
                 if is_word_char before_char then Inr (read_distribution c s)
                 else if can_annotate methods (dd_get (- 1) (last_line s) c) line_nr c
                   then Inr (insert_annotation line_nr (e + total_annotation_length s) c
                               (read_last_line c (read_distribution c s)))
                   else Inr (read_last_line c (read_distribution c s))))"
  by (simp add: annotate_match.simps Let_def read_distribution_def read_last_line_def
           split: sum.splits)

section \<open>Rejection inside a command argument\<close>

text \<open>
  C5. A match spanning \<open>[a, b]\<close> is inside an argument exactly when the prefix before
  \<open>a\<close> has more opening than closing characters and the suffix after \<open>b\<close> has fewer.
  The loop applies the test with braces and with brackets, at the corrected offsets of
  the match, and either one rejects the match: it is counted as invalid and the line
  stays as it is.
\<close>

theorem is_inside_command_rejects:
  "(is_inside_command line (int a) (int b) open_char close_char \<longleftrightarrow>
      count_list (take a line) open_char > count_list (take a line) close_char
      \<and> count_list (drop (Suc b) line) open_char < count_list (drop (Suc b) line) close_char)
   \<and> (is_inside_command (cur_line s) (e + total_annotation_length s - int (length m) + 1)
          (e + total_annotation_length s) (CHR ''{'') (CHR ''}'')
        \<or> is_inside_command (cur_line s) (e + total_annotation_length s - int (length m) + 1)
          (e + total_annotation_length s) (CHR ''['') (CHR '']'')
       \<longrightarrow> annotate_match methods line_nr s (e, m, c) = Inr (count_invalid s)
           \<and> cur_line (count_invalid s) = cur_line s
           \<and> invalid_matches (cur_stats (count_invalid s)) = invalid_matches (cur_stats s) + 1)"
proof -
  have "nat (int b + 1) = Suc b" by simp
  then have iff: "is_inside_command line (int a) (int b) open_char close_char \<longleftrightarrow>
      count_list (take a line) open_char > count_list (take a line) close_char
      \<and> count_list (drop (Suc b) line) open_char < count_list (drop (Suc b) line) close_char"
    by (simp add: is_inside_command_def Let_def py_slice_to_nonneg py_slice_from_nonneg
        str_count_def)
  have rej: "annotate_match methods line_nr s (e, m, c) = Inr (count_invalid s)"
    if "is_inside_command (cur_line s) (e + total_annotation_length s - int (length m) + 1)
          (e + total_annotation_length s) (CHR ''{'') (CHR ''}'')
        \<or> is_inside_command (cur_line s) (e + total_annotation_length s - int (length m) + 1)
          (e + total_annotation_length s) (CHR ''['') (CHR '']'')"
    using that by (intro annotate_match_invalid) (auto simp: is_invalid_match_def)
  show ?thesis using iff rej by (simp add: count_invalid_def)
qed

theorem is_inside_command_rejects_witness:
  "is_inside_command ''{a model b}.'' 3 7 (CHR ''{'') (CHR ''}'')
   \<and> annotate_match None 0
         \<lparr>cur_line = ''{a model b}.'', total_annotation_length = 0,
          cur_stats = initial_stats 1, last_line = []\<rparr> (7, ''model'', ''model'')
       = Inr \<lparr>cur_line = ''{a model b}.'', total_annotation_length = 0,
          cur_stats = (initial_stats 1)\<lparr>invalid_matches := 1\<rparr>, last_line = []\<rparr>"
proof -
  let ?s = "\<lparr>cur_line = ''{a model b}.'', total_annotation_length = 0,
          cur_stats = initial_stats 1, last_line = []\<rparr>"
  have h: "is_inside_command ''{a model b}.'' 3 7 (CHR ''{'') (CHR ''}'')"
    by code_simp
  from is_inside_command_rejects
         [of "''{a model b}.''" 3 7 "CHR ''{''" "CHR ''}''" ?s 7 "''model''" None 0 "''model''"] h
  show ?thesis by (simp add: count_invalid_def initial_stats_def)
qed

section \<open>Lines inside a tracked environment\<close>

lemma is_inside_env_iff: "is_inside_env ce \<longleftrightarrow> (\<exists>kv \<in> set ce. snd kv > 0)"
  by (induction ce rule: is_inside_env.induct) auto

text \<open>
  C2. A line is excluded exactly when some environment counter is strictly positive
  after the line's own delimiters have been observed. An excluded line is written as it
  was read, whatever the matcher would report on it, and the count of skipped
  environment lines grows by one; a line that is not excluded is handed to the match
  loop.
\<close>

theorem excluded_line_is_copied:
  "(is_inside_env ce \<longleftrightarrow> (\<exists>kv \<in> set ce. snd kv > 0))
   \<and> (is_inside_env (check_end line (check_begin line (count_env fs) allowed_env) allowed_env)
        \<longrightarrow> process_line matcher allowed_env methods fs line_nr line =
              Inr (fs\<lparr>count_env :=
                        check_end line (check_begin line (count_env fs) allowed_env) allowed_env,
                      tmp_f := tmp_f fs @ [line],
                      file_stats := (file_stats fs)\<lparr>environment_blocks_skipped :=
                        environment_blocks_skipped (file_stats fs) + 1\<rparr>\<rparr>))
   \<and> (\<not> is_inside_env (check_end line (check_begin line (count_env fs) allowed_env) allowed_env)
        \<longrightarrow> process_line matcher allowed_env methods fs line_nr line =
              (case annotate_matches methods line_nr
                      \<lparr>cur_line = line, total_annotation_length = 0,
                       cur_stats = file_stats fs, last_line = file_last_line fs\<rparr>
                      (matcher line) of
                 Inl e \<Rightarrow> Inl e
               | Inr s \<Rightarrow>
                   Inr (fs\<lparr>count_env :=
                        check_end line (check_begin line (count_env fs) allowed_env) allowed_env,
                          tmp_f := tmp_f fs @ [cur_line s],
                          file_stats := cur_stats s,
                          file_last_line := last_line s\<rparr>)))"
  by (simp add: is_inside_env_iff process_line_def Let_def split: sum.splits)

theorem excluded_line_is_copied_witness:
  "is_inside_env [(''figure'', 1)]
   \<and> process_line (iter_long [(''model'', ''model'')]) [''sloppypar''] None
        \<lparr>file_stats = initial_stats 1, file_last_line = [],
         count_env = [(''figure'', 1)], tmp_f = []\<rparr> 3 (''The model.'' @ [newline])
      = Inr \<lparr>file_stats = (initial_stats 1)\<lparr>environment_blocks_skipped := 1\<rparr>,
             file_last_line = [], count_env = [(''figure'', 1)],
             tmp_f = [''The model.'' @ [newline]]\<rparr>"
proof -
  let ?fs = "\<lparr>file_stats = initial_stats 1, file_last_line = [],
         count_env = [(''figure'', 1)], tmp_f = []\<rparr>"
  let ?line = "''The model.'' @ [newline]"
  have ce: "check_end ?line (check_begin ?line [(''figure'', 1)] [''sloppypar'']) [''sloppypar'']
              = [(''figure'', 1)]"
    by code_simp
  have h: "is_inside_env [(''figure'', 1)]" by simp
  from excluded_line_is_copied
         [of "[(''figure'', 1)]" ?line ?fs "[''sloppypar'']" "iter_long [(''model'', ''model'')]" None 3]
       ce h
  show ?thesis by (simp add: initial_stats_def)
qed

subsection \<open>Projections of the loop state\<close>

lemma read_distribution_simps [simp]:
  "cur_line (read_distribution c s) = cur_line s"
  "total_annotation_length (read_distribution c s) = total_annotation_length s"
  "last_line (read_distribution c s) = last_line s"
  "index_terms (cur_stats (read_distribution c s)) = index_terms (cur_stats s)"
  "edited_files (cur_stats (read_distribution c s)) = edited_files (cur_stats s)"
  "environment_blocks_skipped (cur_stats (read_distribution c s)) =
     environment_blocks_skipped (cur_stats s)"
  "invalid_matches (cur_stats (read_distribution c s)) = invalid_matches (cur_stats s)"
  "indexed_matches (cur_stats (read_distribution c s)) = indexed_matches (cur_stats s)"
  "dd_get 0 (annotation_distribution (cur_stats (read_distribution c s))) k =
     dd_get 0 (annotation_distribution (cur_stats s)) k"
  by (simp_all add: read_distribution_def)

lemma read_last_line_simps [simp]:
  "cur_line (read_last_line c s) = cur_line s"
  "total_annotation_length (read_last_line c s) = total_annotation_length s"
  "cur_stats (read_last_line c s) = cur_stats s"
  "dd_get (- 1) (last_line (read_last_line c s)) k = dd_get (- 1) (last_line s) k"
  by (simp_all add: read_last_line_def)

lemma count_invalid_simps [simp]:
  "cur_line (count_invalid s) = cur_line s"
  "total_annotation_length (count_invalid s) = total_annotation_length s"
  "last_line (count_invalid s) = last_line s"
  "index_terms (cur_stats (count_invalid s)) = index_terms (cur_stats s)"
  "edited_files (cur_stats (count_invalid s)) = edited_files (cur_stats s)"
  "environment_blocks_skipped (cur_stats (count_invalid s)) =
     environment_blocks_skipped (cur_stats s)"
  "invalid_matches (cur_stats (count_invalid s)) = invalid_matches (cur_stats s) + 1"
  "indexed_matches (cur_stats (count_invalid s)) = indexed_matches (cur_stats s)"
  "annotation_distribution (cur_stats (count_invalid s)) = annotation_distribution (cur_stats s)"
  by (simp_all add: count_invalid_def)

lemma insert_annotation_simps [simp]:
  "cur_line (insert_annotation line_nr e c s) =
     py_slice_to (cur_line s) (e + 1) @ annotation c @ py_slice_from (cur_line s) (e + 1)"
  "total_annotation_length (insert_annotation line_nr e c s) =
     total_annotation_length s + int (length (annotation c))"
  "last_line (insert_annotation line_nr e c s) = dd_set (last_line s) c line_nr"
  "index_terms (cur_stats (insert_annotation line_nr e c s)) = index_terms (cur_stats s)"
  "edited_files (cur_stats (insert_annotation line_nr e c s)) = edited_files (cur_stats s)"
  "environment_blocks_skipped (cur_stats (insert_annotation line_nr e c s)) =
     environment_blocks_skipped (cur_stats s)"
  "invalid_matches (cur_stats (insert_annotation line_nr e c s)) = invalid_matches (cur_stats s)"
  "indexed_matches (cur_stats (insert_annotation line_nr e c s)) =
     indexed_matches (cur_stats s) + 1"
  "annotation_distribution (cur_stats (insert_annotation line_nr e c s)) =
     dd_add 0 (annotation_distribution (cur_stats s)) c 1"
  by (simp_all add: insert_annotation_def Let_def)

section \<open>Rejected matches and the statistics\<close>

text \<open>
  C8. A match that the validator rejects (its concept contains a slash or \<open>et al\<close>, it
  lies inside a brace or bracket argument, or it is the tail of a command name) adds one
  to the count of invalid matches and leaves the line, the other counts and the
  last-annotated lines as they were. A match that the validator accepts but that has a
  word character just after its end, or just before its start, leaves the line and every
  count as it was: the integer statistics are equal and every concept has the frequency
  it had (the read of the distribution stores a zero for a concept not seen before).
\<close>

theorem rejected_match_statistics:
  assumes "line = cur_line s"
    and "end_index = e + total_annotation_length s"
    and "start_index = end_index - int (length m) + 1"
  shows
    "(sublist ''/'' c \<or> sublist ''et al'' c
        \<or> is_inside_command line start_index end_index (CHR ''{'') (CHR ''}'')
        \<or> is_inside_command line start_index end_index (CHR ''['') (CHR '']'')
        \<or> is_part_of_command line end_index
      \<longrightarrow> (\<exists>s'. annotate_match methods line_nr s (e, m, c) = Inr s'
             \<and> invalid_matches (cur_stats s') = invalid_matches (cur_stats s) + 1
             \<and> cur_line s' = line
             \<and> total_annotation_length s' = total_annotation_length s
             \<and> indexed_matches (cur_stats s') = indexed_matches (cur_stats s)
             \<and> annotation_distribution (cur_stats s') = annotation_distribution (cur_stats s)
             \<and> last_line s' = last_line s))
     \<and> (\<not> is_invalid_match line start_index end_index c
         \<and> 0 \<le> start_index \<and> end_index + 1 < int (length line)
         \<and> (is_word_char (line ! nat (end_index + 1))
              \<or> 0 < start_index \<and> is_word_char (line ! nat (start_index - 1)))
      \<longrightarrow> (\<exists>s'. annotate_match methods line_nr s (e, m, c) = Inr s'
             \<and> cur_line s' = line
             \<and> total_annotation_length s' = total_annotation_length s
             \<and> index_terms (cur_stats s') = index_terms (cur_stats s)
             \<and> edited_files (cur_stats s') = edited_files (cur_stats s)
             \<and> environment_blocks_skipped (cur_stats s') =
                 environment_blocks_skipped (cur_stats s)
             \<and> invalid_matches (cur_stats s') = invalid_matches (cur_stats s)
             \<and> indexed_matches (cur_stats s') = indexed_matches (cur_stats s)
             \<and> (\<forall>k. dd_get 0 (annotation_distribution (cur_stats s')) k =
                      dd_get 0 (annotation_distribution (cur_stats s)) k)
             \<and> last_line s' = last_line s))"
proof (intro conjI impI)
  assume "sublist ''/'' c \<or> sublist ''et al'' c
        \<or> is_inside_command line start_index end_index (CHR ''{'') (CHR ''}'')
        \<or> is_inside_command line start_index end_index (CHR ''['') (CHR '']'')
        \<or> is_part_of_command line end_index"
  then have "is_invalid_match line start_index end_index c"
    by (auto simp: is_invalid_match_def is_invalid_concept_def)
  then have "annotate_match methods line_nr s (e, m, c) = Inr (count_invalid s)"
    using assms annotate_match_invalid by simp
  then show "\<exists>s'. annotate_match methods line_nr s (e, m, c) = Inr s'
             \<and> invalid_matches (cur_stats s') = invalid_matches (cur_stats s) + 1
             \<and> cur_line s' = line
             \<and> total_annotation_length s' = total_annotation_length s
             \<and> indexed_matches (cur_stats s') = indexed_matches (cur_stats s)
             \<and> annotation_distribution (cur_stats s') = annotation_distribution (cur_stats s)
             \<and> last_line s' = last_line s"
    using assms by simp
next
  assume h: "\<not> is_invalid_match line start_index end_index c
         \<and> 0 \<le> start_index \<and> end_index + 1 < int (length line)
         \<and> (is_word_char (line ! nat (end_index + 1))
              \<or> 0 < start_index \<and> is_word_char (line ! nat (start_index - 1)))"
  have valid: "\<not> is_invalid_match (cur_line s)
      (e + total_annotation_length s - int (length m) + 1) (e + total_annotation_length s) c"
    using h assms by simp
  have after: "py_index line (end_index + 1) = Inr (line ! nat (end_index + 1))"
    using h assms by (simp add: py_index_nonneg)
  have before: "0 < start_index \<Longrightarrow>
      py_index line (end_index - int (length m)) = Inr (line ! nat (start_index - 1))"
    using h assms by (simp add: py_index_nonneg)
  have "annotate_match methods line_nr s (e, m, c) = Inr (read_distribution c s)"
  proof (cases "is_word_char (line ! nat (end_index + 1))")
    case True
    then show ?thesis
      using after assms by (simp add: annotate_match_valid [OF valid])
  next
    case False
    with h have "0 < start_index" "is_word_char (line ! nat (start_index - 1))" by auto
    then show ?thesis
      using False after before assms by (simp add: annotate_match_valid [OF valid])
  qed
  then show "\<exists>s'. annotate_match methods line_nr s (e, m, c) = Inr s'
             \<and> cur_line s' = line
             \<and> total_annotation_length s' = total_annotation_length s
             \<and> index_terms (cur_stats s') = index_terms (cur_stats s)
             \<and> edited_files (cur_stats s') = edited_files (cur_stats s)
             \<and> environment_blocks_skipped (cur_stats s') =
                 environment_blocks_skipped (cur_stats s)
             \<and> invalid_matches (cur_stats s') = invalid_matches (cur_stats s)
             \<and> indexed_matches (cur_stats s') = indexed_matches (cur_stats s)
             \<and> (\<forall>k. dd_get 0 (annotation_distribution (cur_stats s')) k =
                      dd_get 0 (annotation_distribution (cur_stats s)) k)
             \<and> last_line s' = last_line s"
    using assms by simp
qed


theorem rejected_match_statistics_witness:
  "(\<exists>s'. annotate_match None 0
            \<lparr>cur_line = ''see a/b here'' @ [newline], total_annotation_length = 0,
             cur_stats = initial_stats 1, last_line = []\<rparr> (6, ''a/b'', ''a/b'') = Inr s'
        \<and> invalid_matches (cur_stats s') = 1
        \<and> cur_line s' = ''see a/b here'' @ [newline])
   \<and> (\<exists>s'. annotate_match None 0
            \<lparr>cur_line = ''remodel x'' @ [newline], total_annotation_length = 0,
             cur_stats = initial_stats 1, last_line = []\<rparr> (6, ''model'', ''model'') = Inr s'
        \<and> invalid_matches (cur_stats s') = 0
        \<and> indexed_matches (cur_stats s') = 0
        \<and> cur_line s' = ''remodel x'' @ [newline])
   \<and> (\<exists>s'. annotate_match None 0
            \<lparr>cur_line = CHR 0xE9 # ''model y'' @ [newline], total_annotation_length = 0,
             cur_stats = initial_stats 1, last_line = []\<rparr> (5, ''model'', ''model'') = Inr s'
        \<and> invalid_matches (cur_stats s') = 0
        \<and> indexed_matches (cur_stats s') = 0
        \<and> cur_line s' = CHR 0xE9 # ''model y'' @ [newline])"
proof -
  let ?s1 = "\<lparr>cur_line = ''see a/b here'' @ [newline], total_annotation_length = 0,
             cur_stats = initial_stats 1, last_line = []\<rparr>"
  let ?s3 = "\<lparr>cur_line = CHR 0xE9 # ''model y'' @ [newline], total_annotation_length = 0,
             cur_stats = initial_stats 1, last_line = []\<rparr>"
  have b3: "\<not> is_invalid_match (CHR 0xE9 # ''model y'' @ [newline]) 1 5 ''model''"
    by code_simp
  have c3: "is_word_char (CHR 0xE9)" by code_simp
  let ?s2 = "\<lparr>cur_line = ''remodel x'' @ [newline], total_annotation_length = 0,
             cur_stats = initial_stats 1, last_line = []\<rparr>"
  have a: "sublist ''/'' ''a/b''" by code_simp
  have b: "\<not> is_invalid_match (''remodel x'' @ [newline]) 2 6 ''model''" by code_simp
  have c: "is_word_char (CHR ''e'')" by code_simp
  have r1: "\<exists>s'. annotate_match None 0 ?s1 (6, ''a/b'', ''a/b'') = Inr s'
        \<and> invalid_matches (cur_stats s') = 1
        \<and> cur_line s' = ''see a/b here'' @ [newline]"
    using rejected_match_statistics
            [where s = ?s1 and e = 6 and m = "''a/b''" and c = "''a/b''"
               and methods = None and line_nr = 0, OF refl refl refl] a
    by (simp add: initial_stats_def, blast)
  have r2: "\<exists>s'. annotate_match None 0 ?s2 (6, ''model'', ''model'') = Inr s'
        \<and> invalid_matches (cur_stats s') = 0
        \<and> indexed_matches (cur_stats s') = 0
        \<and> cur_line s' = ''remodel x'' @ [newline]"
    using rejected_match_statistics
            [where s = ?s2 and e = 6 and m = "''model''" and c = "''model''"
               and methods = None and line_nr = 0, OF refl refl refl] b c
    by (simp add: initial_stats_def, blast)
  have r3: "\<exists>s'. annotate_match None 0 ?s3 (5, ''model'', ''model'') = Inr s'
        \<and> invalid_matches (cur_stats s') = 0
        \<and> indexed_matches (cur_stats s') = 0
        \<and> cur_line s' = CHR 0xE9 # ''model y'' @ [newline]"
    using rejected_match_statistics
            [where s = ?s3 and e = 5 and m = "''model''" and c = "''model''"
               and methods = None and line_nr = 0, OF refl refl refl] b3 c3
    by (simp add: initial_stats_def, blast)
  from r1 r2 r3 show ?thesis by blast
qed

section \<open>The boundary check can read past the end of the line\<close>

text \<open>
  C9. The loop over the matches is not total. For a match the validator accepts whose
  corrected end is the last character of the line, the boundary check indexes the line at
  its length: the read is an \<open>IndexError\<close>, and so is the iteration, rather than a
  silent skip. When the line is a body followed by its newline and the match lies in the
  body, the read is in range and the iteration returns a state.
\<close>

theorem boundary_read_past_end:
  assumes "end_index = e + total_annotation_length s"
    and "\<not> is_invalid_match (cur_line s) (end_index - int (length m) + 1) end_index c"
  shows
    "(end_index + 1 = int (length (cur_line s))
        \<longrightarrow> py_index (cur_line s) (end_index + 1) = Inl IndexError
            \<and> annotate_match methods line_nr s (e, m, c) = Inl IndexError)
     \<and> (cur_line s = body @ [newline] \<and> 0 \<le> end_index - int (length m) + 1
          \<and> end_index < int (length body)
        \<longrightarrow> py_index (cur_line s) (end_index + 1) = Inr (cur_line s ! nat (end_index + 1))
            \<and> (\<exists>s'. annotate_match methods line_nr s (e, m, c) = Inr s'))"
proof (intro conjI impI)
  note valid = annotate_match_valid [of s e m c methods line_nr]
  assume last: "end_index + 1 = int (length (cur_line s))"
  then show "py_index (cur_line s) (end_index + 1) = Inl IndexError"
    by (simp add: py_index_def)
  with assms show "annotate_match methods line_nr s (e, m, c) = Inl IndexError"
    by (simp add: valid)
next
  note valid = annotate_match_valid [of s e m c methods line_nr]
  assume h: "cur_line s = body @ [newline] \<and> 0 \<le> end_index - int (length m) + 1
          \<and> end_index < int (length body)"
  then have range: "0 \<le> end_index + 1" "end_index + 1 < int (length (cur_line s))"
    by auto
  then show after: "py_index (cur_line s) (end_index + 1) = Inr (cur_line s ! nat (end_index + 1))"
    by (simp add: py_index_nonneg)
  have "\<exists>ch. py_index (cur_line s) (end_index - int (length m)) = Inr ch"
  proof (cases "end_index - int (length m) = - 1")
    case True
    then show ?thesis using h by (simp add: py_index_minus_one)
  next
    case False
    with h range have "0 \<le> end_index - int (length m)"
      "end_index - int (length m) < int (length (cur_line s))" by auto
    then show ?thesis by (simp add: py_index_nonneg)
  qed
  then obtain ch where before: "py_index (cur_line s) (end_index - int (length m)) = Inr ch"
    by blast
  from assms after before show "\<exists>s'. annotate_match methods line_nr s (e, m, c) = Inr s'"
    by (simp add: valid)
qed

theorem boundary_read_past_end_witness:
  "annotate_match None 0
      \<lparr>cur_line = ''the model'', total_annotation_length = 0,
       cur_stats = initial_stats 1, last_line = []\<rparr> (8, ''model'', ''model'')
     = Inl IndexError
   \<and> (\<exists>s'. annotate_match None 0
      \<lparr>cur_line = ''the model'' @ [newline], total_annotation_length = 0,
       cur_stats = initial_stats 1, last_line = []\<rparr> (8, ''model'', ''model'') = Inr s')"
proof -
  let ?s1 = "\<lparr>cur_line = ''the model'', total_annotation_length = 0,
       cur_stats = initial_stats 1, last_line = []\<rparr>"
  let ?s2 = "\<lparr>cur_line = ''the model'' @ [newline], total_annotation_length = 0,
       cur_stats = initial_stats 1, last_line = []\<rparr>"
  have a: "\<not> is_invalid_match ''the model'' 4 8 ''model''" by code_simp
  have b: "\<not> is_invalid_match (''the model'' @ [newline]) 4 8 ''model''" by code_simp
  have r1: "annotate_match None 0 ?s1 (8, ''model'', ''model'') = Inl IndexError"
    using boundary_read_past_end
            [where s = ?s1 and e = 8 and m = "''model''" and c = "''model''"
               and methods = None and line_nr = 0 and end_index = 8] a
    by simp
  have r2: "\<exists>s'. annotate_match None 0 ?s2 (8, ''model'', ''model'') = Inr s'"
    using boundary_read_past_end
            [where s = ?s2 and e = 8 and m = "''model''" and c = "''model''"
               and methods = None and line_nr = 0 and end_index = 8
               and body = "''the model''"] b
    by simp
  from r1 r2 show ?thesis by blast
qed

section \<open>A match at the start of the line\<close>

lemma length_annotation: "length (annotation c) = length c + 8"
  by (simp add: annotation_def)

text \<open>
  C10. For a match the validator accepts that starts at column 0, the index of the
  character before the match is \<open>- 1\<close>, which reads the last character of the line.
  The marker is inserted exactly when the character after the match and the last
  character of the line are both non-word characters and the throttle allows the
  concept; otherwise the line stays as it was.
\<close>

theorem first_column_match_reads_last_character:
  assumes "end_index = e + total_annotation_length s"
    and "end_index - int (length m) + 1 = 0"
    and "\<not> is_invalid_match (cur_line s) 0 end_index c"
    and "end_index + 1 < int (length (cur_line s))"
  shows
    "py_index (cur_line s) (end_index - int (length m)) = Inr (last (cur_line s))
     \<and> (\<exists>s'. annotate_match methods line_nr s (e, m, c) = Inr s'
          \<and> (cur_line s' = take (nat (end_index + 1)) (cur_line s) @ annotation c
                             @ drop (nat (end_index + 1)) (cur_line s)
              \<longleftrightarrow> \<not> is_word_char (cur_line s ! nat (end_index + 1))
                   \<and> \<not> is_word_char (last (cur_line s))
                   \<and> can_annotate methods (dd_get (- 1) (last_line s) c) line_nr c)
          \<and> (cur_line s' = cur_line s
              \<longleftrightarrow> \<not> (\<not> is_word_char (cur_line s ! nat (end_index + 1))
                      \<and> \<not> is_word_char (last (cur_line s))
                      \<and> can_annotate methods (dd_get (- 1) (last_line s) c) line_nr c)))"
proof -
  let ?line = "cur_line s"
  let ?ins = "take (nat (end_index + 1)) ?line @ annotation c @ drop (nat (end_index + 1)) ?line"
  from assms have nonneg: "0 \<le> end_index + 1" by simp
  with assms have nonempty: "?line \<noteq> []" by auto
  from assms(2) have "end_index - int (length m) = - 1" by simp
  then have before: "py_index ?line (end_index - int (length m)) = Inr (last ?line)"
    using nonempty py_index_minus_one [of ?line] by simp
  have after: "py_index ?line (end_index + 1) = Inr (?line ! nat (end_index + 1))"
    using nonneg assms(4) by (simp add: py_index_nonneg)
  have differ: "?ins \<noteq> ?line"
  proof
    assume "?ins = ?line"
    then have "length ?ins = length ?line" by simp
    then show False by (simp add: length_annotation)
  qed
  have valid: "\<not> is_invalid_match ?line
      (e + total_annotation_length s - int (length m) + 1) (e + total_annotation_length s) c"
    using assms by simp
  have step: "annotate_match methods line_nr s (e, m, c) =
      (if is_word_char (?line ! nat (end_index + 1)) then Inr (read_distribution c s)
       else if is_word_char (last ?line) then Inr (read_distribution c s)
       else if can_annotate methods (dd_get (- 1) (last_line s) c) line_nr c
         then Inr (insert_annotation line_nr end_index c
                     (read_last_line c (read_distribution c s)))
         else Inr (read_last_line c (read_distribution c s)))"
    using after before assms(1) by (simp add: annotate_match_valid [OF valid])
  have ins: "cur_line (insert_annotation line_nr end_index c
                     (read_last_line c (read_distribution c s))) = ?ins"
    using nonneg by (simp add: py_slice_to_nonneg py_slice_from_nonneg)
  show ?thesis
    using before step ins differ by (auto simp: eq_commute [of ?line])
qed


theorem first_column_match_reads_last_character_witness:
  "(\<exists>s'. annotate_match None 0
            \<lparr>cur_line = ''model x'' @ [newline], total_annotation_length = 0,
             cur_stats = initial_stats 1, last_line = []\<rparr> (4, ''model'', ''model'') = Inr s'
        \<and> cur_line s' = ''model'' @ annotation ''model'' @ '' x'' @ [newline])
   \<and> (\<exists>s'. annotate_match None 0
            \<lparr>cur_line = ''model x'', total_annotation_length = 0,
             cur_stats = initial_stats 1, last_line = []\<rparr> (4, ''model'', ''model'') = Inr s'
        \<and> cur_line s' = ''model x'')
   \<and> (\<exists>s'. annotate_match None 0
            \<lparr>cur_line = ''model '' @ [CHR 0xE9], total_annotation_length = 0,
             cur_stats = initial_stats 1, last_line = []\<rparr> (4, ''model'', ''model'') = Inr s'
        \<and> cur_line s' = ''model '' @ [CHR 0xE9])"
proof -
  let ?s1 = "\<lparr>cur_line = ''model x'' @ [newline], total_annotation_length = 0,
             cur_stats = initial_stats 1, last_line = []\<rparr>"
  let ?s3 = "\<lparr>cur_line = ''model '' @ [CHR 0xE9], total_annotation_length = 0,
             cur_stats = initial_stats 1, last_line = []\<rparr>"
  have b3: "\<not> is_invalid_match (''model '' @ [CHR 0xE9]) 0 4 ''model''" by code_simp
  have c3: "is_word_char (CHR 0xE9)" by code_simp
  let ?s2 = "\<lparr>cur_line = ''model x'', total_annotation_length = 0,
             cur_stats = initial_stats 1, last_line = []\<rparr>"
  have a: "\<not> is_invalid_match (''model x'' @ [newline]) 0 4 ''model''" by code_simp
  have b: "\<not> is_invalid_match ''model x'' 0 4 ''model''" by code_simp
  have c: "\<not> is_word_char (CHR '' '')" "\<not> is_word_char newline" "is_word_char (CHR ''x'')"
    by code_simp+
  have d: "can_annotate None l n ''model''" for l n by (simp add: can_annotate_def)
  have r1: "\<exists>s'. annotate_match None 0 ?s1 (4, ''model'', ''model'') = Inr s'
        \<and> cur_line s' = ''model'' @ annotation ''model'' @ '' x'' @ [newline]"
    using first_column_match_reads_last_character
            [where s = ?s1 and e = 4 and m = "''model''" and c = "''model''"
               and methods = None and line_nr = 0 and end_index = 4] a c d
    by (simp, blast)
  have r2: "\<exists>s'. annotate_match None 0 ?s2 (4, ''model'', ''model'') = Inr s'
        \<and> cur_line s' = ''model x''"
    using first_column_match_reads_last_character
            [where s = ?s2 and e = 4 and m = "''model''" and c = "''model''"
               and methods = None and line_nr = 0 and end_index = 4] b c d
    by (simp, blast)
  have r3: "\<exists>s'. annotate_match None 0 ?s3 (4, ''model'', ''model'') = Inr s'
        \<and> cur_line s' = ''model '' @ [CHR 0xE9]"
    using first_column_match_reads_last_character
            [where s = ?s3 and e = 4 and m = "''model''" and c = "''model''"
               and methods = None and line_nr = 0 and end_index = 4] b3 c c3 d
    by (simp, blast)
  from r1 r2 r3 show ?thesis by blast
qed

section \<open>The distance policy\<close>

lemma py_slice_split: "py_slice_to xs i @ py_slice_from xs i = xs"
  by (simp add: py_slice_to_def py_slice_from_def)

lemma inserted_line_differs:
  "py_slice_to xs i @ annotation c @ py_slice_from xs i \<noteq> xs"
proof
  assume "py_slice_to xs i @ annotation c @ py_slice_from xs i = xs"
  then have "length (py_slice_to xs i @ annotation c @ py_slice_from xs i)
               = length (py_slice_to xs i @ py_slice_from xs i)"
    by (simp only: py_slice_split)
  then show False by (simp add: length_annotation)
qed

lemma can_annotate_dist:
  "''dist'' \<in> set ms \<Longrightarrow> ''stop'' \<notin> set ms \<or> c \<notin> THESIS_STOPWORDS \<Longrightarrow>
   can_annotate (Some ms) last_nr line_nr c \<longleftrightarrow> last_nr = - 1 \<or> line_nr > last_nr + 200"
  by (auto simp: can_annotate_def DISTANCE_def Let_def)

lemma annotate_match_keeps_last_line:
  assumes "annotate_match methods line_nr s x = Inr s'"
    and "indexed_matches (cur_stats s') = indexed_matches (cur_stats s)"
  shows "dd_get (- 1) (last_line s') k = dd_get (- 1) (last_line s) k"
proof -
  obtain e m c where x: "x = (e, m, c)" by (cases x) auto
  show ?thesis
  proof (cases "is_invalid_match (cur_line s)
      (e + total_annotation_length s - int (length m) + 1) (e + total_annotation_length s) c")
    case True
    with assms x show ?thesis by (auto simp: annotate_match_invalid)
  next
    case False
    note step = annotate_match_valid [OF False, of methods line_nr]
    from assms(1) have "s' = read_distribution c s \<or> s' = read_last_line c (read_distribution c s)
        \<or> s' = insert_annotation line_nr (e + total_annotation_length s) c
                  (read_last_line c (read_distribution c s))"
      unfolding x step by (auto split: sum.splits if_splits)
    with assms(2) show ?thesis by auto
  qed
qed

lemma can_annotate_dist_stop:
  "''dist'' \<in> set ms \<Longrightarrow>
   can_annotate (Some ms) last_nr line_nr c \<longleftrightarrow>
     (last_nr = - 1 \<or> line_nr > last_nr + 200) \<and> (''stop'' \<in> set ms \<longrightarrow> c \<notin> THESIS_STOPWORDS)"
  by (auto simp: can_annotate_def DISTANCE_def Let_def)

text \<open>
  C6, as stated, fails when the stopword policy is selected together with the distance
  policy: the two are combined by conjunction, so the first occurrence of a concept of
  the exclusion set, whose last-annotated line is \<open>- 1\<close>, passes the validator and the
  boundary check and is not annotated.
\<close>

theorem distance_alone_decides_counterexample:
  "''model'' \<in> THESIS_STOPWORDS
   \<and> dd_get (- 1) [] ''model'' = (- 1 :: int)
   \<and> \<not> is_invalid_match (''a model b'' @ [newline]) 2 6 ''model''
   \<and> py_index (''a model b'' @ [newline]) 7 = Inr (CHR '' '')
   \<and> py_index (''a model b'' @ [newline]) 1 = Inr (CHR '' '')
   \<and> \<not> is_word_char (CHR '' '')
   \<and> annotate_match (Some [''dist'', ''stop'']) 0
        \<lparr>cur_line = ''a model b'' @ [newline], total_annotation_length = 0,
         cur_stats = initial_stats 1, last_line = []\<rparr> (6, ''model'', ''model'')
     = Inr \<lparr>cur_line = ''a model b'' @ [newline], total_annotation_length = 0,
            cur_stats = (initial_stats 1)\<lparr>annotation_distribution := [(''model'', 0)]\<rparr>,
            last_line = [(''model'', - 1)]\<rparr>"
  by code_simp

text \<open>
  C6 (amended). With the distance policy selected, a match that passed the validator and
  the boundary check is annotated exactly when the concept has no last-annotated line in
  this file (\<open>- 1\<close>) or the line number exceeds the last-annotated line by more than 200,
  and, if the stopword policy is selected as well, the concept is not in the exclusion
  set. Whatever the policies, an iteration that annotates nothing leaves every concept's
  last-annotated line as it was. In a file with the concept on lines 10 and 150 only the
  first occurrence is annotated; on lines 10 and 215 both are.
\<close>

theorem distance_policy:
  "(end_index = e + total_annotation_length s
      \<and> \<not> is_invalid_match (cur_line s) (end_index - int (length m) + 1) end_index c
      \<and> py_index (cur_line s) (end_index + 1) = Inr a \<and> \<not> is_word_char a
      \<and> py_index (cur_line s) (end_index - int (length m)) = Inr b \<and> \<not> is_word_char b
      \<and> ''dist'' \<in> set ms
    \<longrightarrow> (\<exists>s'. annotate_match (Some ms) line_nr s (e, m, c) = Inr s'
           \<and> (cur_line s' = py_slice_to (cur_line s) (end_index + 1) @ annotation c
                               @ py_slice_from (cur_line s) (end_index + 1)
                \<and> indexed_matches (cur_stats s') = indexed_matches (cur_stats s) + 1
                \<and> dd_get (- 1) (last_line s') c = line_nr
               \<longleftrightarrow> (dd_get (- 1) (last_line s) c = - 1
                     \<or> line_nr > dd_get (- 1) (last_line s) c + 200)
                    \<and> (''stop'' \<in> set ms \<longrightarrow> c \<notin> THESIS_STOPWORDS))
           \<and> (cur_line s' = cur_line s
                \<and> indexed_matches (cur_stats s') = indexed_matches (cur_stats s)
               \<longleftrightarrow> \<not> ((dd_get (- 1) (last_line s) c = - 1
                        \<or> line_nr > dd_get (- 1) (last_line s) c + 200)
                       \<and> (''stop'' \<in> set ms \<longrightarrow> c \<notin> THESIS_STOPWORDS)))))
   \<and> (\<forall>s' k. annotate_match methods line_nr s x = Inr s'
         \<and> indexed_matches (cur_stats s') = indexed_matches (cur_stats s)
       \<longrightarrow> dd_get (- 1) (last_line s') k = dd_get (- 1) (last_line s) k)
   \<and> (case process_file (iter_long [(''foo'', ''foo'')]) [''sloppypar''] (Some [''dist''])
              (initial_stats 1)
              (replicate 10 [newline] @ [''a foo b'' @ [newline]] @ replicate 139 [newline]
                 @ [''a foo b'' @ [newline]]) of
         Inl err \<Rightarrow> False
       | Inr (st, out) \<Rightarrow>
           indexed_matches st = 1
           \<and> out = replicate 10 [newline]
                   @ [''a foo'' @ annotation ''foo'' @ '' b'' @ [newline]]
                   @ replicate 139 [newline] @ [''a foo b'' @ [newline]])
   \<and> (case process_file (iter_long [(''foo'', ''foo'')]) [''sloppypar''] (Some [''dist''])
              (initial_stats 1)
              (replicate 10 [newline] @ [''a foo b'' @ [newline]] @ replicate 204 [newline]
                 @ [''a foo b'' @ [newline]]) of
         Inl err \<Rightarrow> False
       | Inr (st, out) \<Rightarrow>
           indexed_matches st = 2
           \<and> out = replicate 10 [newline]
                   @ [''a foo'' @ annotation ''foo'' @ '' b'' @ [newline]]
                   @ replicate 204 [newline]
                   @ [''a foo'' @ annotation ''foo'' @ '' b'' @ [newline]])"
proof (intro conjI)
  show "end_index = e + total_annotation_length s
      \<and> \<not> is_invalid_match (cur_line s) (end_index - int (length m) + 1) end_index c
      \<and> py_index (cur_line s) (end_index + 1) = Inr a \<and> \<not> is_word_char a
      \<and> py_index (cur_line s) (end_index - int (length m)) = Inr b \<and> \<not> is_word_char b
      \<and> ''dist'' \<in> set ms
    \<longrightarrow> (\<exists>s'. annotate_match (Some ms) line_nr s (e, m, c) = Inr s'
           \<and> (cur_line s' = py_slice_to (cur_line s) (end_index + 1) @ annotation c
                               @ py_slice_from (cur_line s) (end_index + 1)
                \<and> indexed_matches (cur_stats s') = indexed_matches (cur_stats s) + 1
                \<and> dd_get (- 1) (last_line s') c = line_nr
               \<longleftrightarrow> (dd_get (- 1) (last_line s) c = - 1
                     \<or> line_nr > dd_get (- 1) (last_line s) c + 200)
                    \<and> (''stop'' \<in> set ms \<longrightarrow> c \<notin> THESIS_STOPWORDS))
           \<and> (cur_line s' = cur_line s
                \<and> indexed_matches (cur_stats s') = indexed_matches (cur_stats s)
               \<longleftrightarrow> \<not> ((dd_get (- 1) (last_line s) c = - 1
                        \<or> line_nr > dd_get (- 1) (last_line s) c + 200)
                       \<and> (''stop'' \<in> set ms \<longrightarrow> c \<notin> THESIS_STOPWORDS))))"
  proof
    assume h: "end_index = e + total_annotation_length s
      \<and> \<not> is_invalid_match (cur_line s) (end_index - int (length m) + 1) end_index c
      \<and> py_index (cur_line s) (end_index + 1) = Inr a \<and> \<not> is_word_char a
      \<and> py_index (cur_line s) (end_index - int (length m)) = Inr b \<and> \<not> is_word_char b
      \<and> ''dist'' \<in> set ms"
    let ?s2 = "read_last_line c (read_distribution c s)"
    let ?cond = "(dd_get (- 1) (last_line s) c = - 1
                    \<or> line_nr > dd_get (- 1) (last_line s) c + 200)
                  \<and> (''stop'' \<in> set ms \<longrightarrow> c \<notin> THESIS_STOPWORDS)"
    from h have valid: "\<not> is_invalid_match (cur_line s)
        (e + total_annotation_length s - int (length m) + 1) (e + total_annotation_length s) c"
      by auto
    from h have can: "can_annotate (Some ms) (dd_get (- 1) (last_line s) c) line_nr c = ?cond"
      using can_annotate_dist_stop [of ms] by blast
    from h have eq: "e + total_annotation_length s = end_index" by simp
    from h have reads: "py_index (cur_line s) (end_index + 1) = Inr a" "\<not> is_word_char a"
        "py_index (cur_line s) (end_index - int (length m)) = Inr b" "\<not> is_word_char b"
      by blast+
    have step: "annotate_match (Some ms) line_nr s (e, m, c) =
        Inr (if ?cond then insert_annotation line_nr end_index c ?s2 else ?s2)"
      by (simp add: annotate_match_valid [OF valid] can eq reads)
    show "\<exists>s'. annotate_match (Some ms) line_nr s (e, m, c) = Inr s'
           \<and> (cur_line s' = py_slice_to (cur_line s) (end_index + 1) @ annotation c
                               @ py_slice_from (cur_line s) (end_index + 1)
                \<and> indexed_matches (cur_stats s') = indexed_matches (cur_stats s) + 1
                \<and> dd_get (- 1) (last_line s') c = line_nr
               \<longleftrightarrow> ?cond)
           \<and> (cur_line s' = cur_line s
                \<and> indexed_matches (cur_stats s') = indexed_matches (cur_stats s)
               \<longleftrightarrow> \<not> ?cond)"
      unfolding step
      by (cases ?cond) (simp_all add: dd_get_set inserted_line_differs)
  qed
next
  show "\<forall>s' k. annotate_match methods line_nr s x = Inr s'
         \<and> indexed_matches (cur_stats s') = indexed_matches (cur_stats s)
       \<longrightarrow> dd_get (- 1) (last_line s') k = dd_get (- 1) (last_line s) k"
    using annotate_match_keeps_last_line by blast
next
  show "case process_file (iter_long [(''foo'', ''foo'')]) [''sloppypar''] (Some [''dist''])
              (initial_stats 1)
              (replicate 10 [newline] @ [''a foo b'' @ [newline]] @ replicate 139 [newline]
                 @ [''a foo b'' @ [newline]]) of
         Inl err \<Rightarrow> False
       | Inr (st, out) \<Rightarrow>
           indexed_matches st = 1
           \<and> out = replicate 10 [newline]
                   @ [''a foo'' @ annotation ''foo'' @ '' b'' @ [newline]]
                   @ replicate 139 [newline] @ [''a foo b'' @ [newline]]"
    by code_simp
next
  show "case process_file (iter_long [(''foo'', ''foo'')]) [''sloppypar''] (Some [''dist''])
              (initial_stats 1)
              (replicate 10 [newline] @ [''a foo b'' @ [newline]] @ replicate 204 [newline]
                 @ [''a foo b'' @ [newline]]) of
         Inl err \<Rightarrow> False
       | Inr (st, out) \<Rightarrow>
           indexed_matches st = 2
           \<and> out = replicate 10 [newline]
                   @ [''a foo'' @ annotation ''foo'' @ '' b'' @ [newline]]
                   @ replicate 204 [newline]
                   @ [''a foo'' @ annotation ''foo'' @ '' b'' @ [newline]]"
    by code_simp
qed

theorem distance_policy_witness:
  "(\<exists>s'. annotate_match (Some [''dist'']) 215
            \<lparr>cur_line = ''a foo b'' @ [newline], total_annotation_length = 0,
             cur_stats = initial_stats 1, last_line = [(''foo'', 10)]\<rparr> (4, ''foo'', ''foo'')
          = Inr s'
        \<and> indexed_matches (cur_stats s') = 1
        \<and> dd_get (- 1) (last_line s') ''foo'' = 215)
   \<and> (\<exists>s'. annotate_match (Some [''dist'']) 150
            \<lparr>cur_line = ''a foo b'' @ [newline], total_annotation_length = 0,
             cur_stats = initial_stats 1, last_line = [(''foo'', 10)]\<rparr> (4, ''foo'', ''foo'')
          = Inr s'
        \<and> indexed_matches (cur_stats s') = 0
        \<and> cur_line s' = ''a foo b'' @ [newline])"
proof -
  let ?s = "\<lparr>cur_line = ''a foo b'' @ [newline], total_annotation_length = 0,
             cur_stats = initial_stats 1, last_line = [(''foo'', 10)]\<rparr>"
  have a: "\<not> is_invalid_match (''a foo b'' @ [newline]) 2 4 ''foo''" by code_simp
  have b: "py_index (''a foo b'' @ [newline]) 5 = Inr (CHR '' '')"
    "py_index (''a foo b'' @ [newline]) 1 = Inr (CHR '' '')"
    by code_simp+
  have c: "\<not> is_word_char (CHR '' '')" by code_simp
  have d: "dd_get (- 1) (last_line ?s) ''foo'' = 10" by (simp add: dd_get_def)
  have i0: "indexed_matches (cur_stats ?s) = 0" by (simp add: initial_stats_def)
  have ante: "(4::int) = 4 + total_annotation_length ?s
      \<and> \<not> is_invalid_match (cur_line ?s) (4 - int (length ''foo'') + 1) 4 ''foo''
      \<and> py_index (cur_line ?s) (4 + 1) = Inr (CHR '' '') \<and> \<not> is_word_char (CHR '' '')
      \<and> py_index (cur_line ?s) (4 - int (length ''foo'')) = Inr (CHR '' '')
      \<and> \<not> is_word_char (CHR '' '')
      \<and> ''dist'' \<in> set [''dist'']"
    using a b c by simp
  from distance_policy
         [where s = ?s and e = 4 and end_index = 4 and m = "''foo''" and c = "''foo''"
            and a = "CHR '' ''" and b = "CHR '' ''" and ms = "[''dist'']"
            and line_nr = 215, THEN conjunct1, THEN mp, OF ante]
  obtain s1 where s1: "annotate_match (Some [''dist'']) 215 ?s (4, ''foo'', ''foo'') = Inr s1"
    and yes: "cur_line s1 = py_slice_to (cur_line ?s) (4 + 1) @ annotation ''foo''
                               @ py_slice_from (cur_line ?s) (4 + 1)
                \<and> indexed_matches (cur_stats s1) = indexed_matches (cur_stats ?s) + 1
                \<and> dd_get (- 1) (last_line s1) ''foo'' = 215
               \<longleftrightarrow> (dd_get (- 1) (last_line ?s) ''foo'' = - 1
                     \<or> 215 > dd_get (- 1) (last_line ?s) ''foo'' + 200)
                    \<and> (''stop'' \<in> set [''dist''] \<longrightarrow> ''foo'' \<notin> THESIS_STOPWORDS)"
    by blast
  from yes have r1: "indexed_matches (cur_stats s1) = 1
      \<and> dd_get (- 1) (last_line s1) ''foo'' = 215"
    unfolding d i0 by simp
  from distance_policy
         [where s = ?s and e = 4 and end_index = 4 and m = "''foo''" and c = "''foo''"
            and a = "CHR '' ''" and b = "CHR '' ''" and ms = "[''dist'']"
            and line_nr = 150, THEN conjunct1, THEN mp, OF ante]
  obtain s2 where s2: "annotate_match (Some [''dist'']) 150 ?s (4, ''foo'', ''foo'') = Inr s2"
    and no: "cur_line s2 = cur_line ?s
                \<and> indexed_matches (cur_stats s2) = indexed_matches (cur_stats ?s)
               \<longleftrightarrow> \<not> ((dd_get (- 1) (last_line ?s) ''foo'' = - 1
                        \<or> 150 > dd_get (- 1) (last_line ?s) ''foo'' + 200)
                       \<and> (''stop'' \<in> set [''dist''] \<longrightarrow> ''foo'' \<notin> THESIS_STOPWORDS))"
    by blast
  from no have r2: "indexed_matches (cur_stats s2) = 0 \<and> cur_line s2 = ''a foo b'' @ [newline]"
    unfolding d i0 by simp
  from s1 r1 s2 r2 show ?thesis by blast
qed

section \<open>Which delimiter the environment tracker recognises\<close>

lemma first_some_last:
  assumes "f p = Some y" and "p \<le> n" and "\<And>i. p < i \<Longrightarrow> i \<le> n \<Longrightarrow> f i = None"
  shows "first_some f (rev [0..<Suc n]) = Some y"
  using assms
proof (induction n)
  case 0
  then show ?case by simp
next
  case (Suc n)
  show ?case
  proof (cases "p = Suc n")
    case True
    with Suc.prems show ?thesis by simp
  next
    case False
    with Suc.prems have "p \<le> n" "f (Suc n) = None" by auto
    moreover from this Suc have "first_some f (rev [0..<Suc n]) = Some y" by simp
    ultimately show ?thesis by simp
  qed
qed

lemma first_some_none: "(\<And>x. x \<in> set xs \<Longrightarrow> f x = None) \<Longrightarrow> first_some f xs = None"
  by (induction xs) auto

lemma lazy_group_closed:
  assumes "CHR ''}'' \<notin> set X" and "newline \<notin> set X"
  shows "lazy_group (X @ CHR ''}'' # post) = Some X"
proof -
  have "takeWhile (\<lambda>c. c \<noteq> CHR ''}'' \<and> c \<noteq> newline) (X @ CHR ''}'' # post) = X"
    using assms by (induction X) auto
  then show ?thesis by (simp add: lazy_group_def)
qed

lemma lazy_group_open:
  "CHR ''}'' \<notin> set (takeWhile (\<lambda>c. c \<noteq> newline) v) \<Longrightarrow> lazy_group v = None"
proof (induction v)
  case Nil
  then show ?case by (simp add: lazy_group_def)
next
  case (Cons a v)
  show ?case
  proof (cases "a = newline")
    case True
    then show ?thesis by (simp add: lazy_group_def newline_def)
  next
    case False
    with Cons.prems have a: "a \<noteq> CHR ''}''"
      and rest: "CHR ''}'' \<notin> set (takeWhile (\<lambda>c. c \<noteq> newline) v)"
      by auto
    from Cons.IH [OF rest] a False show ?thesis
      by (auto simp: lazy_group_def Let_def split: list.splits if_splits)
  qed
qed

lemma take_before_newline:
  assumes "i \<le> length (takeWhile (\<lambda>c. c \<noteq> newline) line)"
  shows "newline \<notin> set (take i line)"
proof -
  have "take i line = take i (takeWhile (\<lambda>c. c \<noteq> newline) line @ dropWhile (\<lambda>c. c \<noteq> newline) line)"
    by simp
  also have "\<dots> = take i (takeWhile (\<lambda>c. c \<noteq> newline) line)"
    using assms by (simp del: takeWhile_dropWhile_id)
  finally have "set (take i line) \<subseteq> set (takeWhile (\<lambda>c. c \<noteq> newline) line)"
    by (simp add: set_take_subset)
  then show ?thesis by (auto dest: set_takeWhileD)
qed

lemma delim_at_closed:
  assumes "delim_at kw line i = Some g"
    and "i \<le> length (takeWhile (\<lambda>c. c \<noteq> newline) line)"
  shows "\<exists>v. drop i line = kw @ v \<and> newline \<notin> set (take i line)
           \<and> CHR ''}'' \<in> set (takeWhile (\<lambda>c. c \<noteq> newline) v)"
proof -
  from assms(1) have pre: "prefix kw (drop i line)"
    and group: "lazy_group (drop (i + length kw) line) = Some g"
    by (auto simp: delim_at_def split: if_splits)
  from pre obtain v where v: "drop i line = kw @ v" by (auto simp: prefix_def)
  then have "drop (length kw) (drop i line) = v" by simp
  then have "drop (i + length kw) line = v" by (simp add: add.commute)
  with group have "lazy_group v = Some g" by simp
  then have "CHR ''}'' \<in> set (takeWhile (\<lambda>c. c \<noteq> newline) v)"
    using lazy_group_open [of v] by auto
  with v take_before_newline [OF assms(2)] show ?thesis by blast
qed

lemma re_match_delim_none:
  assumes "\<not> closed_delimiter_in kw line"
  shows "re_match_delim kw line = None"
  unfolding re_match_delim_def
proof (rule first_some_none)
  fix i
  assume "i \<in> set (rev [0..<Suc (length (takeWhile (\<lambda>c. c \<noteq> newline) line))])"
  then have bound: "i \<le> length (takeWhile (\<lambda>c. c \<noteq> newline) line)" by auto
  show "delim_at kw line i = None"
  proof (rule ccontr)
    assume "delim_at kw line i \<noteq> None"
    then obtain g where "delim_at kw line i = Some g" by auto
    from delim_at_closed [OF this bound] obtain v where
      v: "drop i line = kw @ v" "newline \<notin> set (take i line)"
         "CHR ''}'' \<in> set (takeWhile (\<lambda>c. c \<noteq> newline) v)"
      by blast
    have "line = take i line @ kw @ v" using v(1) by (metis append_take_drop_id)
    with v assms show False unfolding closed_delimiter_in_def by blast
  qed
qed

lemma re_match_delim_last:
  assumes kw: "kw = backslash # w" "backslash \<notin> set w"
    and pre: "newline \<notin> set pre"
    and X: "CHR ''}'' \<notin> set X" "newline \<notin> set X"
    and later: "\<not> closed_delimiter_in kw (X @ CHR ''}'' # post)"
  shows "re_match_delim kw (pre @ kw @ X @ CHR ''}'' # post) = Some X"
proof -
  let ?rest = "X @ CHR ''}'' # post"
  let ?line = "pre @ kw @ ?rest"
  let ?n = "length (takeWhile (\<lambda>c. c \<noteq> newline) ?line)"
  have here: "delim_at kw ?line (length pre) = Some X"
    using X by (simp add: delim_at_def lazy_group_closed)
  have "takeWhile (\<lambda>c. c \<noteq> newline) ?line = pre @ takeWhile (\<lambda>c. c \<noteq> newline) (kw @ ?rest)"
    using pre by (intro takeWhile_append2) auto
  then have bound: "length pre \<le> ?n" by simp
  have none: "delim_at kw ?line i = None" if "length pre < i" and "i \<le> ?n" for i
  proof (cases "i - length pre < length kw")
    case True
    define j where "j = i - length pre"
    with that True have j: "0 < j" "j < length kw" "i = length pre + j" by auto
    then have "drop i ?line = drop j kw @ ?rest" by simp
    moreover from j obtain c rest where cr: "drop j kw = c # rest"
      by (cases "drop j kw") auto
    moreover have "c \<noteq> backslash"
    proof -
      from j kw have "drop j kw = drop (j - 1) w" by (cases j) auto
      with cr have "c \<in> set w" by (metis in_set_dropD list.set_intros(1))
      with kw show ?thesis by auto
    qed
    ultimately have "\<not> prefix kw (drop i ?line)" using kw by simp
    then show ?thesis by (simp add: delim_at_def)
  next
    case False
    define k where "k = i - length pre - length kw"
    with that False have i: "i = length pre + length kw + k" by simp
    show ?thesis
    proof (rule ccontr)
      assume "delim_at kw ?line i \<noteq> None"
      then obtain g where "delim_at kw ?line i = Some g" by auto
      from delim_at_closed [OF this that(2)] obtain v where
        v: "drop i ?line = kw @ v" "newline \<notin> set (take i ?line)"
           "CHR ''}'' \<in> set (takeWhile (\<lambda>c. c \<noteq> newline) v)"
        by blast
      have "drop i ?line = drop k ?rest" unfolding i by simp
      with v(1) have split: "?rest = take k ?rest @ kw @ v"
        by (metis append_take_drop_id)
      have t: "take i ?line = pre @ kw @ take k ?rest" unfolding i by simp
      from v(2) [unfolded t] have "newline \<notin> set (take k ?rest)" by simp
      with split v(3) have "closed_delimiter_in kw ?rest"
        unfolding closed_delimiter_in_def by blast
      with later show False by simp
    qed
  qed
  show ?thesis
    unfolding re_match_delim_def
    by (rule first_some_last [where f = "delim_at kw ?line" and p = "length pre", OF here bound])
       (rule none)
qed

lemma begin_kw_shape: "begin_kw = backslash # ''begin{''" "backslash \<notin> set ''begin{''"
  by (simp_all add: begin_kw_def backslash_def)

lemma end_kw_shape: "end_kw = backslash # ''end{''" "backslash \<notin> set ''end{''"
  by (simp_all add: end_kw_def backslash_def)


lemma lazy_group_some:
  "CHR ''}'' \<in> set (takeWhile (\<lambda>c. c \<noteq> newline) v) \<Longrightarrow> lazy_group v \<noteq> None"
proof (induction v)
  case Nil
  then show ?case by simp
next
  case (Cons a v)
  show ?case
  proof (cases "a = CHR ''}''")
    case True
    then show ?thesis by (simp add: lazy_group_def)
  next
    case False
    with Cons.prems have "a \<noteq> newline"
      and "CHR ''}'' \<in> set (takeWhile (\<lambda>c. c \<noteq> newline) v)"
      by (auto split: if_splits)
    with Cons.IH False show ?thesis
      by (auto simp: lazy_group_def Let_def split: list.splits if_splits)
  qed
qed

lemma first_some_some: "x \<in> set xs \<Longrightarrow> f x \<noteq> None \<Longrightarrow> first_some f xs \<noteq> None"
  by (induction xs) (auto split: option.splits)

lemma re_match_delim_none_iff:
  "re_match_delim kw line = None \<longleftrightarrow> \<not> closed_delimiter_in kw line"
proof
  assume none: "re_match_delim kw line = None"
  show "\<not> closed_delimiter_in kw line"
  proof
    assume "closed_delimiter_in kw line"
    then obtain u v where line: "line = u @ kw @ v" and u: "newline \<notin> set u"
      and v: "CHR ''}'' \<in> set (takeWhile (\<lambda>c. c \<noteq> newline) v)"
      unfolding closed_delimiter_in_def by blast
    have "takeWhile (\<lambda>c. c \<noteq> newline) line = u @ takeWhile (\<lambda>c. c \<noteq> newline) (kw @ v)"
      unfolding line using u by (intro takeWhile_append2) auto
    then have "length u \<in> set (rev [0..<Suc (length (takeWhile (\<lambda>c. c \<noteq> newline) line))])"
      by simp
    moreover have "delim_at kw line (length u) \<noteq> None"
      using lazy_group_some [OF v] by (simp add: delim_at_def line)
    ultimately have "re_match_delim kw line \<noteq> None"
      unfolding re_match_delim_def by (rule first_some_some)
    with none show False by simp
  qed
next
  assume "\<not> closed_delimiter_in kw line"
  then show "re_match_delim kw line = None" by (rule re_match_delim_none)
qed

text \<open>
  C3, as stated, fails: on a line with two delimiters the counter of the first is left
  alone and the counter of the second changes, since the leading greedy \<^verbatim>\<open>.*\<close> of
  the pattern takes the longest prefix that still lets the rest match.
\<close>

theorem tracker_takes_first_delimiter_counterexample:
  "check_begin (begin_kw @ ''figure}'' @ begin_kw @ ''table}'' @ [newline]) [] [''sloppypar'']
     \<noteq> dd_add 0 [] ''figure'' 1
   \<and> dd_get 0 (check_begin (begin_kw @ ''figure}'' @ begin_kw @ ''table}'' @ [newline]) []
                  [''sloppypar'']) ''figure'' = 0
   \<and> dd_get 0 (check_begin (begin_kw @ ''figure}'' @ begin_kw @ ''table}'' @ [newline]) []
                  [''sloppypar'']) ''table'' = 1
   \<and> check_end (end_kw @ ''figure}'' @ end_kw @ ''table}'' @ [newline]) [(''figure'', 1)]
        [''sloppypar'']
     \<noteq> dd_add 0 [(''figure'', 1)] ''figure'' (- 1)
   \<and> dd_get 0 (check_end (end_kw @ ''figure}'' @ end_kw @ ''table}'' @ [newline])
                  [(''figure'', 1)] [''sloppypar'']) ''figure'' = 1
   \<and> dd_get 0 (check_end (end_kw @ ''figure}'' @ end_kw @ ''table}'' @ [newline])
                  [(''figure'', 1)] [''sloppypar'']) ''table'' = - 1"
  by code_simp

text \<open>
  C3 (amended). Each call changes at most one counter, by one. The delimiter it
  recognises is the last one on the line that has its closing brace: for a line made of
  \<open>pre\<close>, the keyword, \<open>X\<close>, a closing brace and \<open>post\<close>, where no later occurrence of the
  keyword on the line is followed by a closing brace (a later delimiter left open does
  not count), whatever delimiters \<open>pre\<close> holds, \<open>check_begin\<close> adds one to the counter of
  \<open>X\<close> and to no other, unless \<open>X\<close> is an allowed environment, and \<open>check_end\<close> does the
  same with its keyword, subtracting one. On a line with no closed delimiter the
  counters stay as they are.
\<close>

theorem tracker_takes_last_delimiter:
  "(check_begin line ce allowed_env = ce
      \<or> (\<exists>X. X \<notin> set allowed_env \<and> check_begin line ce allowed_env = dd_add 0 ce X 1))
   \<and> (check_end line ce allowed_env = ce
      \<or> (\<exists>X. X \<notin> set allowed_env \<and> check_end line ce allowed_env = dd_add 0 ce X (- 1)))
   \<and> (newline \<notin> set pre \<and> CHR ''}'' \<notin> set X \<and> newline \<notin> set X
        \<and> \<not> closed_delimiter_in begin_kw (X @ CHR ''}'' # post)
      \<longrightarrow> check_begin (pre @ begin_kw @ X @ CHR ''}'' # post) ce allowed_env
            = (if X \<in> set allowed_env then ce else dd_add 0 ce X 1)
          \<and> (\<forall>k. dd_get 0 (check_begin (pre @ begin_kw @ X @ CHR ''}'' # post) ce allowed_env) k
                 = (if k = X \<and> X \<notin> set allowed_env then dd_get 0 ce X + 1
                    else dd_get 0 ce k)))
   \<and> (newline \<notin> set pre \<and> CHR ''}'' \<notin> set X \<and> newline \<notin> set X
        \<and> \<not> closed_delimiter_in end_kw (X @ CHR ''}'' # post)
      \<longrightarrow> check_end (pre @ end_kw @ X @ CHR ''}'' # post) ce allowed_env
            = (if X \<in> set allowed_env then ce else dd_add 0 ce X (- 1))
          \<and> (\<forall>k. dd_get 0 (check_end (pre @ end_kw @ X @ CHR ''}'' # post) ce allowed_env) k
                 = (if k = X \<and> X \<notin> set allowed_env then dd_get 0 ce X - 1
                    else dd_get 0 ce k)))
   \<and> (\<not> closed_delimiter_in begin_kw line \<longrightarrow> check_begin line ce allowed_env = ce)
   \<and> (\<not> closed_delimiter_in end_kw line \<longrightarrow> check_end line ce allowed_env = ce)"
proof (intro conjI impI)
  show "check_begin line ce allowed_env = ce
      \<or> (\<exists>X. X \<notin> set allowed_env \<and> check_begin line ce allowed_env = dd_add 0 ce X 1)"
    by (auto simp: check_begin_def split: option.splits)
  show "check_end line ce allowed_env = ce
      \<or> (\<exists>X. X \<notin> set allowed_env \<and> check_end line ce allowed_env = dd_add 0 ce X (- 1))"
    by (auto simp: check_end_def split: option.splits)
next
  assume h: "newline \<notin> set pre \<and> CHR ''}'' \<notin> set X \<and> newline \<notin> set X
        \<and> \<not> closed_delimiter_in begin_kw (X @ CHR ''}'' # post)"
  then have "re_match_delim begin_kw (pre @ begin_kw @ X @ CHR ''}'' # post) = Some X"
    by (intro re_match_delim_last [OF begin_kw_shape]) auto
  then show eq: "check_begin (pre @ begin_kw @ X @ CHR ''}'' # post) ce allowed_env
      = (if X \<in> set allowed_env then ce else dd_add 0 ce X 1)"
    by (simp add: check_begin_def)
  show "\<forall>k. dd_get 0 (check_begin (pre @ begin_kw @ X @ CHR ''}'' # post) ce allowed_env) k
                 = (if k = X \<and> X \<notin> set allowed_env then dd_get 0 ce X + 1
                    else dd_get 0 ce k)"
    unfolding eq by (simp add: dd_get_add)
next
  assume h: "newline \<notin> set pre \<and> CHR ''}'' \<notin> set X \<and> newline \<notin> set X
        \<and> \<not> closed_delimiter_in end_kw (X @ CHR ''}'' # post)"
  then have "re_match_delim end_kw (pre @ end_kw @ X @ CHR ''}'' # post) = Some X"
    by (intro re_match_delim_last [OF end_kw_shape]) auto
  then show eq: "check_end (pre @ end_kw @ X @ CHR ''}'' # post) ce allowed_env
      = (if X \<in> set allowed_env then ce else dd_add 0 ce X (- 1))"
    by (simp add: check_end_def)
  show "\<forall>k. dd_get 0 (check_end (pre @ end_kw @ X @ CHR ''}'' # post) ce allowed_env) k
                 = (if k = X \<and> X \<notin> set allowed_env then dd_get 0 ce X - 1
                    else dd_get 0 ce k)"
    unfolding eq by (simp add: dd_get_add)
next
  assume "\<not> closed_delimiter_in begin_kw line"
  then show "check_begin line ce allowed_env = ce"
    by (simp add: check_begin_def re_match_delim_none)
next
  assume "\<not> closed_delimiter_in end_kw line"
  then show "check_end line ce allowed_env = ce"
    by (simp add: check_end_def re_match_delim_none)
qed

theorem tracker_takes_last_delimiter_witness:
  "check_begin ((begin_kw @ ''figure}'') @ begin_kw @ ''table'' @ CHR ''}''
                  # (begin_kw @ ''tabular'' @ [newline])) []
      [''sloppypar''] = [(''table'', 1)]
   \<and> check_end ((end_kw @ ''figure}'') @ end_kw @ ''table'' @ CHR ''}'' # [newline])
      [(''figure'', 1)] [''sloppypar''] = [(''figure'', 1), (''table'', - 1)]
   \<and> check_begin (begin_kw @ ''figure'' @ [newline]) [(''table'', 1)] [''sloppypar'']
     = [(''table'', 1)]
   \<and> check_end (''plain text'' @ [newline]) [(''table'', 1)] [''sloppypar''] = [(''table'', 1)]"
proof -
  have a: "newline \<notin> set (begin_kw @ ''figure}'')" "newline \<notin> set (end_kw @ ''figure}'')"
    "CHR ''}'' \<notin> set ''table''" "newline \<notin> set ''table''"
    by code_simp+
  have n: "re_match_delim begin_kw (''table'' @ CHR ''}'' # (begin_kw @ ''tabular'' @ [newline]))
          = None"
    "re_match_delim end_kw (''table'' @ CHR ''}'' # [newline]) = None"
    "re_match_delim begin_kw (begin_kw @ ''figure'' @ [newline]) = None"
    "re_match_delim end_kw (''plain text'' @ [newline]) = None"
    by code_simp+
  note b = n [THEN re_match_delim_none_iff [THEN iffD1]]
  have c: "(if ''table'' \<in> set [''sloppypar''] then [] else dd_add 0 [] ''table'' 1)
             = [(''table'', 1)]"
    "(if ''table'' \<in> set [''sloppypar''] then [(''figure'', 1)]
      else dd_add 0 [(''figure'', 1)] ''table'' (- 1)) = [(''figure'', 1), (''table'', - 1)]"
    by code_simp+
  from a b have ante1: "newline \<notin> set (begin_kw @ ''figure}'') \<and> CHR ''}'' \<notin> set ''table''
      \<and> newline \<notin> set ''table''
      \<and> \<not> closed_delimiter_in begin_kw
            (''table'' @ CHR ''}'' # (begin_kw @ ''tabular'' @ [newline]))"
    by blast
  from a b have ante2: "newline \<notin> set (end_kw @ ''figure}'') \<and> CHR ''}'' \<notin> set ''table''
      \<and> newline \<notin> set ''table''
      \<and> \<not> closed_delimiter_in end_kw (''table'' @ CHR ''}'' # [newline])"
    by blast
  note r1 = tracker_takes_last_delimiter
      [where pre = "begin_kw @ ''figure}''" and X = "''table''"
         and post = "begin_kw @ ''tabular'' @ [newline]"
         and allowed_env = "[''sloppypar'']" and ce = "[]",
       THEN conjunct2, THEN conjunct2, THEN conjunct1, THEN mp, OF ante1, THEN conjunct1]
  note r2 = tracker_takes_last_delimiter
      [where pre = "end_kw @ ''figure}''" and X = "''table''" and post = "[newline]"
         and allowed_env = "[''sloppypar'']" and ce = "[(''figure'', 1)]",
       THEN conjunct2, THEN conjunct2, THEN conjunct2, THEN conjunct1, THEN mp, OF ante2,
       THEN conjunct1]
  note r3 = tracker_takes_last_delimiter
      [where line = "begin_kw @ ''figure'' @ [newline]"
         and allowed_env = "[''sloppypar'']" and ce = "[(''table'', 1)]",
       THEN conjunct2, THEN conjunct2, THEN conjunct2, THEN conjunct2, THEN conjunct1,
       THEN mp, OF b(3)]
  note r4 = tracker_takes_last_delimiter
      [where line = "''plain text'' @ [newline]"
         and allowed_env = "[''sloppypar'']" and ce = "[(''table'', 1)]",
       THEN conjunct2, THEN conjunct2, THEN conjunct2, THEN conjunct2, THEN conjunct2,
       THEN mp, OF b(4)]
  from r1 r2 r3 r4 show ?thesis unfolding c by blast
qed

section \<open>The stopword policy\<close>

lemma annotate_match_result:
  assumes "annotate_match methods line_nr s (e, m, c) = Inr s'"
  shows "s' = count_invalid s
    \<or> s' = read_distribution c s
    \<or> (s' = read_last_line c (read_distribution c s)
        \<and> \<not> can_annotate methods (dd_get (- 1) (last_line s) c) line_nr c)
    \<or> (s' = insert_annotation line_nr (e + total_annotation_length s) c
                (read_last_line c (read_distribution c s))
        \<and> can_annotate methods (dd_get (- 1) (last_line s) c) line_nr c
        \<and> (\<exists>a. py_index (cur_line s) (e + total_annotation_length s + 1) = Inr a))"
proof (cases "is_invalid_match (cur_line s)
      (e + total_annotation_length s - int (length m) + 1) (e + total_annotation_length s) c")
  case True
  with assms show ?thesis by (auto simp: annotate_match_invalid)
next
  case False
  from assms show ?thesis
    unfolding annotate_match_valid [OF False]
    by (auto split: sum.splits if_splits)
qed

lemma stopword_cannot_annotate:
  "''stop'' \<in> set ms \<Longrightarrow> c \<in> THESIS_STOPWORDS \<Longrightarrow> \<not> can_annotate (Some ms) last_nr line_nr c"
  by (simp add: can_annotate_def Let_def)

lemma annotate_match_stopword_line:
  assumes "''stop'' \<in> set ms" and "c \<in> THESIS_STOPWORDS"
    and "annotate_match (Some ms) line_nr s (e, m, c) = Inr s'"
  shows "cur_line s' = cur_line s \<and> indexed_matches (cur_stats s') = indexed_matches (cur_stats s)
    \<and> total_annotation_length s' = total_annotation_length s"
  using annotate_match_result [OF assms(3)] stopword_cannot_annotate [OF assms(1,2)]
  by auto

lemma annotate_match_stopword_frequency:
  assumes "''stop'' \<in> set ms" and "k \<in> THESIS_STOPWORDS"
    and "annotate_match (Some ms) line_nr s x = Inr s'"
  shows "dd_get 0 (annotation_distribution (cur_stats s')) k =
         dd_get 0 (annotation_distribution (cur_stats s)) k"
proof -
  obtain e m c where x: "x = (e, m, c)" by (cases x) auto
  from assms(3) [unfolded x, THEN annotate_match_result]
  show ?thesis
  proof (elim disjE conjE)
    assume s': "s' = insert_annotation line_nr (e + total_annotation_length s) c
                (read_last_line c (read_distribution c s))"
      and can: "can_annotate (Some ms) (dd_get (- 1) (last_line s) c) line_nr c"
    from can stopword_cannot_annotate [OF assms(1)] have "c \<notin> THESIS_STOPWORDS" by blast
    with assms(2) have "k \<noteq> c" by blast
    with s' show ?thesis by (simp add: dd_get_add)
  qed auto
qed

lemma annotate_matches_stopword_frequency:
  assumes "''stop'' \<in> set ms" and "k \<in> THESIS_STOPWORDS"
    and "annotate_matches (Some ms) line_nr s xs = Inr s'"
  shows "dd_get 0 (annotation_distribution (cur_stats s')) k =
         dd_get 0 (annotation_distribution (cur_stats s)) k"
  using assms(3)
proof (induction xs arbitrary: s)
  case Nil
  then show ?case by simp
next
  case (Cons x xs)
  then obtain s1 where s1: "annotate_match (Some ms) line_nr s x = Inr s1"
    and rest: "annotate_matches (Some ms) line_nr s1 xs = Inr s'"
    by (auto split: sum.splits)
  from Cons.IH [OF rest] annotate_match_stopword_frequency [OF assms(1,2) s1]
  show ?case by simp
qed

lemma process_line_stopword_frequency:
  assumes "''stop'' \<in> set ms" and "k \<in> THESIS_STOPWORDS"
    and "process_line matcher allowed_env (Some ms) fs line_nr line = Inr fs'"
  shows "dd_get 0 (annotation_distribution (file_stats fs')) k =
         dd_get 0 (annotation_distribution (file_stats fs)) k"
proof (cases "is_inside_env (check_end line (check_begin line (count_env fs) allowed_env) allowed_env)")
  case True
  with assms(3) show ?thesis by (auto simp: process_line_def Let_def)
next
  case False
  with assms(3) obtain s' where
    run: "annotate_matches (Some ms) line_nr
            \<lparr>cur_line = line, total_annotation_length = 0,
             cur_stats = file_stats fs, last_line = file_last_line fs\<rparr> (matcher line) = Inr s'"
    and fs': "file_stats fs' = cur_stats s'"
    by (auto simp: process_line_def Let_def split: sum.splits)
  from annotate_matches_stopword_frequency [OF assms(1,2) run] fs' show ?thesis by simp
qed

lemma process_lines_stopword_frequency:
  assumes "''stop'' \<in> set ms" and "k \<in> THESIS_STOPWORDS"
    and "process_lines matcher allowed_env (Some ms) fs line_nr lines = Inr fs'"
  shows "dd_get 0 (annotation_distribution (file_stats fs')) k =
         dd_get 0 (annotation_distribution (file_stats fs)) k"
  using assms(3)
proof (induction lines arbitrary: fs line_nr)
  case Nil
  then show ?case by simp
next
  case (Cons line rest)
  then obtain fs1 where one: "process_line matcher allowed_env (Some ms) fs line_nr line = Inr fs1"
    and more: "process_lines matcher allowed_env (Some ms) fs1 (line_nr + 1) rest = Inr fs'"
    by (auto split: sum.splits)
  from Cons.IH [OF more] process_line_stopword_frequency [OF assms(1,2) one]
  show ?case by simp
qed

lemma process_file_stopword_frequency:
  assumes "''stop'' \<in> set ms" and "k \<in> THESIS_STOPWORDS"
    and "process_file matcher allowed_env (Some ms) st tex_f = Inr (st', out)"
  shows "dd_get 0 (annotation_distribution st') k = dd_get 0 (annotation_distribution st) k"
proof -
  from assms(3) obtain fs' where
    run: "process_lines matcher allowed_env (Some ms)
            \<lparr>file_stats = st\<lparr>edited_files := edited_files st + 1\<rparr>, file_last_line = [],
             count_env = [], tmp_f = []\<rparr> 0 tex_f = Inr fs'"
    and st': "st' = file_stats fs'"
    by (auto simp: process_file_def Let_def split: sum.splits)
  from process_lines_stopword_frequency [OF assms(1,2) run] st' show ?thesis by simp
qed

lemma process_files_stopword_frequency:
  assumes "''stop'' \<in> set ms" and "k \<in> THESIS_STOPWORDS"
    and "process_files matcher allowed_env (Some ms) st files = Inr (st', outs)"
  shows "dd_get 0 (annotation_distribution st') k = dd_get 0 (annotation_distribution st) k"
  using assms(3)
proof (induction files arbitrary: st outs)
  case Nil
  then show ?case by simp
next
  case (Cons f files)
  then obtain st1 out outs1 where
    one: "process_file matcher allowed_env (Some ms) st f = Inr (st1, out)"
    and more: "process_files matcher allowed_env (Some ms) st1 files = Inr (st', outs1)"
    by (auto split: sum.splits)
  from Cons.IH [OF more] process_file_stopword_frequency [OF assms(1,2) one]
  show ?case by simp
qed


lemma annotate_matches_stopwords_line:
  assumes "''stop'' \<in> set ms" and "\<forall>x \<in> set xs. snd (snd x) \<in> THESIS_STOPWORDS"
    and "annotate_matches (Some ms) line_nr s xs = Inr s'"
  shows "cur_line s' = cur_line s"
  using assms(2,3)
proof (induction xs arbitrary: s)
  case Nil
  then show ?case by simp
next
  case (Cons x xs)
  obtain e m c where x: "x = (e, m, c)" by (cases x) auto
  from Cons.prems obtain s1 where s1: "annotate_match (Some ms) line_nr s (e, m, c) = Inr s1"
    and rest: "annotate_matches (Some ms) line_nr s1 xs = Inr s'"
    by (auto simp: x split: sum.splits)
  from Cons.prems(1) have c: "c \<in> THESIS_STOPWORDS"
    and others: "\<forall>y \<in> set xs. snd (snd y) \<in> THESIS_STOPWORDS"
    by (simp_all add: x)
  from Cons.IH [OF others rest] annotate_match_stopword_line [OF assms(1) c s1]
  show ?case by simp
qed

lemma process_line_stopwords_output:
  assumes "''stop'' \<in> set ms" and "\<forall>x \<in> set (matcher line). snd (snd x) \<in> THESIS_STOPWORDS"
    and "process_line matcher allowed_env (Some ms) fs line_nr line = Inr fs'"
  shows "tmp_f fs' = tmp_f fs @ [line]"
proof (cases "is_inside_env (check_end line (check_begin line (count_env fs) allowed_env) allowed_env)")
  case True
  with assms(3) show ?thesis by (auto simp: process_line_def Let_def)
next
  case False
  with assms(3) obtain s' where
    run: "annotate_matches (Some ms) line_nr
            \<lparr>cur_line = line, total_annotation_length = 0,
             cur_stats = file_stats fs, last_line = file_last_line fs\<rparr> (matcher line) = Inr s'"
    and fs': "tmp_f fs' = tmp_f fs @ [cur_line s']"
    by (auto simp: process_line_def Let_def split: sum.splits)
  from annotate_matches_stopwords_line [OF assms(1,2) run] fs' show ?thesis by simp
qed

lemma process_lines_stopwords_output:
  assumes "''stop'' \<in> set ms"
    and "\<forall>line. \<forall>x \<in> set (matcher line). snd (snd x) \<in> THESIS_STOPWORDS"
    and "process_lines matcher allowed_env (Some ms) fs line_nr lines = Inr fs'"
  shows "tmp_f fs' = tmp_f fs @ lines"
  using assms(3)
proof (induction lines arbitrary: fs line_nr)
  case Nil
  then show ?case by simp
next
  case (Cons line rest)
  then obtain fs1 where one: "process_line matcher allowed_env (Some ms) fs line_nr line = Inr fs1"
    and more: "process_lines matcher allowed_env (Some ms) fs1 (line_nr + 1) rest = Inr fs'"
    by (auto split: sum.splits)
  from assms(2) have "\<forall>x \<in> set (matcher line). snd (snd x) \<in> THESIS_STOPWORDS" by blast
  from Cons.IH [OF more] process_line_stopwords_output [OF assms(1) this one]
  show ?case by simp
qed

lemma process_files_stopwords_output:
  assumes "''stop'' \<in> set ms"
    and "\<forall>line. \<forall>x \<in> set (matcher line). snd (snd x) \<in> THESIS_STOPWORDS"
    and "process_files matcher allowed_env (Some ms) st files = Inr (st', outs)"
  shows "outs = files"
  using assms(3)
proof (induction files arbitrary: st outs)
  case Nil
  then show ?case by simp
next
  case (Cons f files)
  then obtain st1 out outs1 where
    one: "process_file matcher allowed_env (Some ms) st f = Inr (st1, out)"
    and more: "process_files matcher allowed_env (Some ms) st1 files = Inr (st', outs1)"
    and outs: "outs = out # outs1"
    by (auto split: sum.splits)
  from one obtain fs' where
    run: "process_lines matcher allowed_env (Some ms)
            \<lparr>file_stats = st\<lparr>edited_files := edited_files st + 1\<rparr>, file_last_line = [],
             count_env = [], tmp_f = []\<rparr> 0 f = Inr fs'"
    and out: "out = tmp_f fs'"
    by (auto simp: process_file_def Let_def split: sum.splits)
  from process_lines_stopwords_output [OF assms(1,2) run] out have "out = f" by simp
  with Cons.IH [OF more] outs show ?case by simp
qed

text \<open>
  C7. With the stopword policy selected, an iteration on a match whose concept is in the
  exclusion set inserts nothing, and after a whole run, for any matcher and any files,
  the frequency of such a concept in the annotation distribution is zero. When every
  concept the matcher reports is in the exclusion set, a run that returns writes back
  every file as it was read. The concept \<open>hypergraph\<close> is in the set, and the run over
  the two-line fixture with the single table row for it writes back the two lines as they
  were read.
\<close>

theorem stopword_never_annotated:
  "(''stop'' \<in> set ms \<and> c \<in> THESIS_STOPWORDS
      \<and> annotate_match (Some ms) line_nr s (e, m, c) = Inr s'
    \<longrightarrow> cur_line s' = cur_line s
        \<and> indexed_matches (cur_stats s') = indexed_matches (cur_stats s)
        \<and> dd_get 0 (annotation_distribution (cur_stats s')) c =
            dd_get 0 (annotation_distribution (cur_stats s)) c)
   \<and> (''stop'' \<in> set ms \<and> c \<in> THESIS_STOPWORDS
      \<and> index_run matcher rows allowed_env (Some ms) files = Inr (st, outs)
    \<longrightarrow> dd_get 0 (annotation_distribution st) c = 0)
   \<and> (''stop'' \<in> set ms
      \<and> (\<forall>line. \<forall>x \<in> set (matcher line). snd (snd x) \<in> THESIS_STOPWORDS)
      \<and> index_run matcher rows allowed_env (Some ms) files = Inr (st, outs)
    \<longrightarrow> outs = files)
   \<and> ''hypergraph'' \<in> THESIS_STOPWORDS
   \<and> index_run (iter_long [(''hypergraph'', ''hypergraph'')]) 1 [''sloppypar''] (Some [''stop''])
        [[''The hypergraph model is useful.'' @ [newline],
          ''We extend the hypergraph further.'' @ [newline]]]
      = Inr (\<lparr>index_terms = 1, edited_files = 1, environment_blocks_skipped = 0,
              invalid_matches = 0, indexed_matches = 0,
              annotation_distribution = [(''hypergraph'', 0)]\<rparr>,
             [[''The hypergraph model is useful.'' @ [newline],
               ''We extend the hypergraph further.'' @ [newline]]])"
proof (intro conjI impI)
  assume h: "''stop'' \<in> set ms \<and> c \<in> THESIS_STOPWORDS
      \<and> annotate_match (Some ms) line_nr s (e, m, c) = Inr s'"
  then have stop: "''stop'' \<in> set ms" and c: "c \<in> THESIS_STOPWORDS"
    and step: "annotate_match (Some ms) line_nr s (e, m, c) = Inr s'"
    by blast+
  from annotate_match_stopword_line [OF stop c step]
  show "cur_line s' = cur_line s"
    and "indexed_matches (cur_stats s') = indexed_matches (cur_stats s)"
    by blast+
  from annotate_match_stopword_frequency [OF stop c step]
  show "dd_get 0 (annotation_distribution (cur_stats s')) c =
            dd_get 0 (annotation_distribution (cur_stats s)) c" .
next
  assume h: "''stop'' \<in> set ms \<and> c \<in> THESIS_STOPWORDS
      \<and> index_run matcher rows allowed_env (Some ms) files = Inr (st, outs)"
  then have stop: "''stop'' \<in> set ms" and c: "c \<in> THESIS_STOPWORDS"
    and run: "process_files matcher allowed_env (Some ms) (initial_stats rows) files
                = Inr (st, outs)"
    by (simp_all add: index_run_def)
  from process_files_stopword_frequency [OF stop c run]
  show "dd_get 0 (annotation_distribution st) c = 0"
    by (simp add: initial_stats_def dd_get_def)
next
  assume h: "''stop'' \<in> set ms
      \<and> (\<forall>line. \<forall>x \<in> set (matcher line). snd (snd x) \<in> THESIS_STOPWORDS)
      \<and> index_run matcher rows allowed_env (Some ms) files = Inr (st, outs)"
  then have stop: "''stop'' \<in> set ms"
    and only: "\<forall>line. \<forall>x \<in> set (matcher line). snd (snd x) \<in> THESIS_STOPWORDS"
    and run: "process_files matcher allowed_env (Some ms) (initial_stats rows) files
                = Inr (st, outs)"
    by (simp_all add: index_run_def)
  from process_files_stopwords_output [OF stop only run]
  show "outs = files" .
next
  show "''hypergraph'' \<in> THESIS_STOPWORDS" by (simp add: THESIS_STOPWORDS_def)
next
  show "index_run (iter_long [(''hypergraph'', ''hypergraph'')]) 1 [''sloppypar''] (Some [''stop''])
        [[''The hypergraph model is useful.'' @ [newline],
          ''We extend the hypergraph further.'' @ [newline]]]
      = Inr (\<lparr>index_terms = 1, edited_files = 1, environment_blocks_skipped = 0,
              invalid_matches = 0, indexed_matches = 0,
              annotation_distribution = [(''hypergraph'', 0)]\<rparr>,
             [[''The hypergraph model is useful.'' @ [newline],
               ''We extend the hypergraph further.'' @ [newline]]])"
    by code_simp
qed

text \<open>The matcher of the contract reports rows of its table only.\<close>

lemma longest_fold_in_table:
  "fold (\<lambda>(m, c) best.
             if m \<noteq> [] \<and> suffix m pre
                \<and> (case best of None \<Rightarrow> True | Some (m', c') \<Rightarrow> length m' \<le> length m)
             then Some (m, c) else best) table best0 = Some r
   \<Longrightarrow> r \<in> set table \<or> best0 = Some r"
proof (induction table arbitrary: best0)
  case Nil
  then show ?case by simp
next
  case (Cons row table)
  obtain m c where row: "row = (m, c)" by (cases row) auto
  from Cons.prems Cons.IH show ?case
    by (fastforce simp: row split: if_splits)
qed

lemma iter_long_reports_table:
  assumes "x \<in> set (iter_long table line)"
  shows "snd x \<in> set table"
proof -
  from assms obtain e where "longest_ending_at table line e = Some (snd x)"
    by (auto simp: iter_long_def split: option.splits)
  from longest_fold_in_table [OF this [unfolded longest_ending_at_def]]
  show ?thesis by simp
qed

theorem stopword_never_annotated_witness:
  "cur_line \<lparr>cur_line = ''The hypergraph model is useful.'' @ [newline],
             total_annotation_length = 0,
             cur_stats = (initial_stats 1)\<lparr>annotation_distribution := [(''hypergraph'', 0)]\<rparr>,
             last_line = [(''hypergraph'', - 1)]\<rparr>
     = ''The hypergraph model is useful.'' @ [newline]
   \<and> annotate_match (Some [''stop'']) 0
        \<lparr>cur_line = ''The hypergraph model is useful.'' @ [newline],
         total_annotation_length = 0, cur_stats = initial_stats 1, last_line = []\<rparr>
        (13, ''hypergraph'', ''hypergraph'')
      = Inr \<lparr>cur_line = ''The hypergraph model is useful.'' @ [newline],
             total_annotation_length = 0,
             cur_stats = (initial_stats 1)\<lparr>annotation_distribution := [(''hypergraph'', 0)]\<rparr>,
             last_line = [(''hypergraph'', - 1)]\<rparr>
   \<and> dd_get 0 (annotation_distribution
        \<lparr>index_terms = 1, edited_files = 1, environment_blocks_skipped = 0,
         invalid_matches = 0, indexed_matches = 0,
         annotation_distribution = [(''hypergraph'', 0)]\<rparr>) ''hypergraph'' = 0"
proof -
  let ?s = "\<lparr>cur_line = ''The hypergraph model is useful.'' @ [newline],
         total_annotation_length = 0, cur_stats = initial_stats 1, last_line = []\<rparr>"
  let ?s' = "\<lparr>cur_line = ''The hypergraph model is useful.'' @ [newline],
             total_annotation_length = 0,
             cur_stats = (initial_stats 1)\<lparr>annotation_distribution := [(''hypergraph'', 0)]\<rparr>,
             last_line = [(''hypergraph'', - 1)]\<rparr>"
  let ?st = "\<lparr>index_terms = 1, edited_files = 1, environment_blocks_skipped = 0,
         invalid_matches = 0, indexed_matches = 0,
         annotation_distribution = [(''hypergraph'', 0)]\<rparr>"
  note inst = stopword_never_annotated
      [where ms = "[''stop'']" and c = "''hypergraph''" and s = ?s and s' = ?s' and e = 13
         and m = "''hypergraph''" and line_nr = 0
         and matcher = "iter_long [(''hypergraph'', ''hypergraph'')]" and rows = 1
         and allowed_env = "[''sloppypar'']"
         and files = "[[''The hypergraph model is useful.'' @ [newline],
                       ''We extend the hypergraph further.'' @ [newline]]]"
         and st = ?st
         and outs = "[[''The hypergraph model is useful.'' @ [newline],
                       ''We extend the hypergraph further.'' @ [newline]]]"]
  note step_part = inst [THEN conjunct1]
  note run_part = inst [THEN conjunct2, THEN conjunct1]
  note output_part = inst [THEN conjunct2, THEN conjunct2, THEN conjunct1]
  note member = inst [THEN conjunct2, THEN conjunct2, THEN conjunct2, THEN conjunct1]
  note run = inst [THEN conjunct2, THEN conjunct2, THEN conjunct2, THEN conjunct2]
  have stop: "''stop'' \<in> set [''stop'']" by simp
  have step: "annotate_match (Some [''stop'']) 0 ?s (13, ''hypergraph'', ''hypergraph'') = Inr ?s'"
    by code_simp
  have only: "\<forall>line. \<forall>x \<in> set (iter_long [(''hypergraph'', ''hypergraph'')] line).
      snd (snd x) \<in> THESIS_STOPWORDS"
  proof (intro allI ballI)
    fix line x
    assume "x \<in> set (iter_long [(''hypergraph'', ''hypergraph'')] line)"
    from iter_long_reports_table [OF this] have "snd x = (''hypergraph'', ''hypergraph'')"
      by simp
    with member show "snd (snd x) \<in> THESIS_STOPWORDS" by simp
  qed
  from step_part [THEN mp, OF conjI [OF stop conjI [OF member step]]]
  have line: "cur_line ?s' = cur_line ?s" by (rule conjunct1)
  from run_part [THEN mp, OF conjI [OF stop conjI [OF member run]]]
  have freq: "dd_get 0 (annotation_distribution ?st) ''hypergraph'' = 0" .
  note same = output_part [THEN mp, OF conjI [OF stop conjI [OF only run]]]
  from line freq step same show ?thesis by simp
qed

section \<open>Statistics over the files of a run\<close>

lemma counts_grow_refl [simp]: "counts_grow st st"
  by (simp add: counts_grow_def)

lemma counts_grow_trans: "counts_grow a b \<Longrightarrow> counts_grow b c \<Longrightarrow> counts_grow a c"
  unfolding counts_grow_def by (auto intro: order_trans)

lemma annotate_match_counts:
  assumes "annotate_match methods line_nr s x = Inr s'"
  shows "counts_grow (cur_stats s) (cur_stats s')
    \<and> edited_files (cur_stats s') = edited_files (cur_stats s)"
proof -
  obtain e m c where x: "x = (e, m, c)" by (cases x) auto
  from assms [unfolded x, THEN annotate_match_result]
  show ?thesis by (auto simp: counts_grow_def dd_get_add)
qed

lemma annotate_matches_counts:
  assumes "annotate_matches methods line_nr s xs = Inr s'"
  shows "counts_grow (cur_stats s) (cur_stats s')
    \<and> edited_files (cur_stats s') = edited_files (cur_stats s)"
  using assms
proof (induction xs arbitrary: s)
  case Nil
  then show ?case by simp
next
  case (Cons x xs)
  then obtain s1 where s1: "annotate_match methods line_nr s x = Inr s1"
    and rest: "annotate_matches methods line_nr s1 xs = Inr s'"
    by (auto split: sum.splits)
  from Cons.IH [OF rest] annotate_match_counts [OF s1]
  show ?case by (auto intro: counts_grow_trans)
qed

lemma process_line_counts:
  assumes "process_line matcher allowed_env methods fs line_nr line = Inr fs'"
  shows "counts_grow (file_stats fs) (file_stats fs')
    \<and> edited_files (file_stats fs') = edited_files (file_stats fs)"
proof (cases "is_inside_env (check_end line (check_begin line (count_env fs) allowed_env) allowed_env)")
  case True
  with assms show ?thesis by (auto simp: process_line_def Let_def counts_grow_def)
next
  case False
  with assms obtain s' where
    run: "annotate_matches methods line_nr
            \<lparr>cur_line = line, total_annotation_length = 0,
             cur_stats = file_stats fs, last_line = file_last_line fs\<rparr> (matcher line) = Inr s'"
    and fs': "file_stats fs' = cur_stats s'"
    by (auto simp: process_line_def Let_def split: sum.splits)
  from annotate_matches_counts [OF run] fs' show ?thesis by simp
qed

lemma process_lines_counts:
  assumes "process_lines matcher allowed_env methods fs line_nr lines = Inr fs'"
  shows "counts_grow (file_stats fs) (file_stats fs')
    \<and> edited_files (file_stats fs') = edited_files (file_stats fs)"
  using assms
proof (induction lines arbitrary: fs line_nr)
  case Nil
  then show ?case by simp
next
  case (Cons line rest)
  then obtain fs1 where one: "process_line matcher allowed_env methods fs line_nr line = Inr fs1"
    and more: "process_lines matcher allowed_env methods fs1 (line_nr + 1) rest = Inr fs'"
    by (auto split: sum.splits)
  from Cons.IH [OF more] process_line_counts [OF one]
  show ?case by (auto intro: counts_grow_trans)
qed

lemma process_file_counts:
  assumes "process_file matcher allowed_env methods st tex_f = Inr (st', out)"
  shows "counts_grow st st' \<and> edited_files st' = edited_files st + 1"
proof -
  let ?st1 = "st\<lparr>edited_files := edited_files st + 1\<rparr>"
  from assms obtain fs' where
    run: "process_lines matcher allowed_env methods
            \<lparr>file_stats = ?st1, file_last_line = [], count_env = [], tmp_f = []\<rparr> 0 tex_f
          = Inr fs'"
    and st': "st' = file_stats fs'"
    by (auto simp: process_file_def Let_def split: sum.splits)
  have "counts_grow st ?st1" by (simp add: counts_grow_def)
  with process_lines_counts [OF run] st' show ?thesis
    by (auto intro: counts_grow_trans)
qed

lemma process_files_counts:
  assumes "process_files matcher allowed_env methods st files = Inr (st', outs)"
  shows "counts_grow st st' \<and> edited_files st' = edited_files st + int (length files)
    \<and> length outs = length files"
  using assms
proof (induction files arbitrary: st outs)
  case Nil
  then show ?case by simp
next
  case (Cons f files)
  then obtain st1 out outs1 where
    one: "process_file matcher allowed_env methods st f = Inr (st1, out)"
    and more: "process_files matcher allowed_env methods st1 files = Inr (st', outs1)"
    and outs: "outs = out # outs1"
    by (auto split: sum.splits)
  from Cons.IH [OF more] process_file_counts [OF one] outs
  show ?case by (auto intro: counts_grow_trans)
qed

subsection \<open>The rewritten file does not depend on the statistics\<close>

lemma annotate_match_same:
  assumes "same_but_stats s t"
  shows "rel_sum (=) same_but_stats (annotate_match methods line_nr s x)
           (annotate_match methods line_nr t x)"
proof -
  obtain e m c where x: "x = (e, m, c)" by (cases x) auto
  from assms have eq: "cur_line t = cur_line s"
    "total_annotation_length t = total_annotation_length s" "last_line t = last_line s"
    by (simp_all add: same_but_stats_def)
  show ?thesis
  proof (cases "is_invalid_match (cur_line s)
      (e + total_annotation_length s - int (length m) + 1) (e + total_annotation_length s) c")
    case True
    then show ?thesis
      unfolding x by (simp add: annotate_match_invalid eq same_but_stats_def)
  next
    case False
    then have "\<not> is_invalid_match (cur_line t)
      (e + total_annotation_length t - int (length m) + 1) (e + total_annotation_length t) c"
      by (simp add: eq)
    note t = annotate_match_valid [OF this, of methods line_nr]
    note s = annotate_match_valid [OF False, of methods line_nr]
    have rel: "same_but_stats (read_distribution c s) (read_distribution c t)"
      "same_but_stats (read_last_line c (read_distribution c s))
         (read_last_line c (read_distribution c t))"
      "same_but_stats
         (insert_annotation line_nr (e + total_annotation_length s) c
            (read_last_line c (read_distribution c s)))
         (insert_annotation line_nr (e + total_annotation_length s) c
            (read_last_line c (read_distribution c t)))"
      by (simp_all add: same_but_stats_def eq read_last_line_def)
    show ?thesis
      unfolding x s t eq using rel by (auto split: sum.splits)
  qed
qed

lemma annotate_matches_same:
  assumes "same_but_stats s t"
  shows "rel_sum (=) same_but_stats (annotate_matches methods line_nr s xs)
           (annotate_matches methods line_nr t xs)"
  using assms
proof (induction xs arbitrary: s t)
  case Nil
  then show ?case by simp
next
  case (Cons x xs)
  from annotate_match_same [OF Cons.prems, of methods line_nr x] Cons.IH
  show ?case
    by (cases "annotate_match methods line_nr s x"; cases "annotate_match methods line_nr t x")
       simp_all
qed

lemma process_line_same:
  assumes "same_file_but_stats fs gs"
  shows "rel_sum (=) same_file_but_stats
           (process_line matcher allowed_env methods fs line_nr line)
           (process_line matcher allowed_env methods gs line_nr line)"
proof -
  from assms have eq: "file_last_line gs = file_last_line fs" "count_env gs = count_env fs"
    "tmp_f gs = tmp_f fs"
    by (simp_all add: same_file_but_stats_def)
  let ?s = "\<lparr>cur_line = line, total_annotation_length = 0,
             cur_stats = file_stats fs, last_line = file_last_line fs\<rparr>"
  let ?t = "\<lparr>cur_line = line, total_annotation_length = 0,
             cur_stats = file_stats gs, last_line = file_last_line fs\<rparr>"
  have "same_but_stats ?s ?t" by (simp add: same_but_stats_def)
  from annotate_matches_same [OF this, of methods line_nr "matcher line"]
  show ?thesis
    by (cases "annotate_matches methods line_nr ?s (matcher line)";
        cases "annotate_matches methods line_nr ?t (matcher line)")
       (simp_all add: process_line_def Let_def eq same_file_but_stats_def same_but_stats_def)
qed

lemma process_lines_same:
  assumes "same_file_but_stats fs gs"
  shows "rel_sum (=) same_file_but_stats
           (process_lines matcher allowed_env methods fs line_nr lines)
           (process_lines matcher allowed_env methods gs line_nr lines)"
  using assms
proof (induction lines arbitrary: fs gs line_nr)
  case Nil
  then show ?case by simp
next
  case (Cons line rest)
  from process_line_same [OF Cons.prems, of matcher allowed_env methods line_nr line] Cons.IH
  show ?case
    by (cases "process_line matcher allowed_env methods fs line_nr line";
        cases "process_line matcher allowed_env methods gs line_nr line")
       simp_all
qed

lemma process_file_same:
  assumes "process_file matcher allowed_env methods st tex_f = Inr (st', out)"
  shows "\<exists>st2'. process_file matcher allowed_env methods st2 tex_f = Inr (st2', out)"
proof -
  let ?fs = "\<lparr>file_stats = st\<lparr>edited_files := edited_files st + 1\<rparr>, file_last_line = [],
             count_env = [], tmp_f = []\<rparr>"
  let ?gs = "\<lparr>file_stats = st2\<lparr>edited_files := edited_files st2 + 1\<rparr>, file_last_line = [],
             count_env = [], tmp_f = []\<rparr>"
  have "same_file_but_stats ?fs ?gs" by (simp add: same_file_but_stats_def)
  from process_lines_same [OF this, of matcher allowed_env methods 0 tex_f] assms
  show ?thesis
    by (cases "process_lines matcher allowed_env methods ?fs 0 tex_f";
        cases "process_lines matcher allowed_env methods ?gs 0 tex_f")
       (simp_all add: process_file_def Let_def same_file_but_stats_def)
qed

lemma process_files_each_alone:
  assumes "process_files matcher allowed_env methods st files = Inr (st', outs)"
  shows "list_all2 (\<lambda>f out. \<exists>st1. process_file matcher allowed_env methods st0 f = Inr (st1, out))
           files outs"
  using assms
proof (induction files arbitrary: st outs)
  case Nil
  then show ?case by simp
next
  case (Cons f files)
  then obtain st1 out outs1 where
    one: "process_file matcher allowed_env methods st f = Inr (st1, out)"
    and more: "process_files matcher allowed_env methods st1 files = Inr (st', outs1)"
    and outs: "outs = out # outs1"
    by (auto split: sum.splits)
  from Cons.IH [OF more] process_file_same [OF one, of st0] outs
  show ?case by simp
qed


subsection \<open>What a file adds to the statistics\<close>

lemma stats_plus_zero: "stats_plus st (initial_stats 0) st"
  by (simp add: stats_plus_def initial_stats_def dd_get_def)

lemma annotate_match_plus:
  assumes "same_but_stats s t" and "stats_plus base (cur_stats t) (cur_stats s)"
  shows "rel_sum (=) (\<lambda>s' t'. same_but_stats s' t' \<and> stats_plus base (cur_stats t') (cur_stats s'))
           (annotate_match methods line_nr s x) (annotate_match methods line_nr t x)"
proof -
  obtain e m c where x: "x = (e, m, c)" by (cases x) auto
  from assms(1) have eq: "cur_line t = cur_line s"
    "total_annotation_length t = total_annotation_length s" "last_line t = last_line s"
    by (simp_all add: same_but_stats_def)
  show ?thesis
  proof (cases "is_invalid_match (cur_line s)
      (e + total_annotation_length s - int (length m) + 1) (e + total_annotation_length s) c")
    case True
    then show ?thesis
      unfolding x using assms(2)
      by (simp add: annotate_match_invalid eq same_but_stats_def stats_plus_def)
  next
    case False
    then have "\<not> is_invalid_match (cur_line t)
      (e + total_annotation_length t - int (length m) + 1) (e + total_annotation_length t) c"
      by (simp add: eq)
    note t = annotate_match_valid [OF this, of methods line_nr]
    note s = annotate_match_valid [OF False, of methods line_nr]
    have same: "same_but_stats (read_distribution c s) (read_distribution c t)"
      "same_but_stats (read_last_line c (read_distribution c s))
         (read_last_line c (read_distribution c t))"
      "same_but_stats
         (insert_annotation line_nr (e + total_annotation_length s) c
            (read_last_line c (read_distribution c s)))
         (insert_annotation line_nr (e + total_annotation_length s) c
            (read_last_line c (read_distribution c t)))"
      by (simp_all add: same_but_stats_def eq read_last_line_def)
    have plus: "stats_plus base (cur_stats (read_distribution c t))
                  (cur_stats (read_distribution c s))"
      "stats_plus base (cur_stats (read_last_line c (read_distribution c t)))
         (cur_stats (read_last_line c (read_distribution c s)))"
      "stats_plus base
         (cur_stats (insert_annotation line_nr (e + total_annotation_length s) c
            (read_last_line c (read_distribution c t))))
         (cur_stats (insert_annotation line_nr (e + total_annotation_length s) c
            (read_last_line c (read_distribution c s))))"
      using assms(2) by (simp_all add: stats_plus_def dd_get_add)
    show ?thesis
      unfolding x s t eq using same plus by (auto split: sum.splits)
  qed
qed

lemma annotate_matches_plus:
  assumes "same_but_stats s t" and "stats_plus base (cur_stats t) (cur_stats s)"
  shows "rel_sum (=) (\<lambda>s' t'. same_but_stats s' t' \<and> stats_plus base (cur_stats t') (cur_stats s'))
           (annotate_matches methods line_nr s xs) (annotate_matches methods line_nr t xs)"
  using assms
proof (induction xs arbitrary: s t)
  case Nil
  then show ?case by simp
next
  case (Cons x xs)
  from annotate_match_plus [OF Cons.prems, of methods line_nr x] Cons.IH
  show ?case
    by (cases "annotate_match methods line_nr s x"; cases "annotate_match methods line_nr t x")
       simp_all
qed

lemma process_line_plus:
  assumes "same_file_but_stats fs gs" and "stats_plus base (file_stats gs) (file_stats fs)"
  shows "rel_sum (=)
           (\<lambda>fs' gs'. same_file_but_stats fs' gs' \<and> stats_plus base (file_stats gs') (file_stats fs'))
           (process_line matcher allowed_env methods fs line_nr line)
           (process_line matcher allowed_env methods gs line_nr line)"
proof -
  from assms(1) have eq: "file_last_line gs = file_last_line fs" "count_env gs = count_env fs"
    "tmp_f gs = tmp_f fs"
    by (simp_all add: same_file_but_stats_def)
  let ?s = "\<lparr>cur_line = line, total_annotation_length = 0,
             cur_stats = file_stats fs, last_line = file_last_line fs\<rparr>"
  let ?t = "\<lparr>cur_line = line, total_annotation_length = 0,
             cur_stats = file_stats gs, last_line = file_last_line fs\<rparr>"
  have "same_but_stats ?s ?t" "stats_plus base (cur_stats ?t) (cur_stats ?s)"
    using assms(2) by (simp_all add: same_but_stats_def)
  from annotate_matches_plus [OF this, of methods line_nr "matcher line"] assms(2)
  show ?thesis
    by (cases "annotate_matches methods line_nr ?s (matcher line)";
        cases "annotate_matches methods line_nr ?t (matcher line)")
       (simp_all add: process_line_def Let_def eq same_file_but_stats_def same_but_stats_def
          stats_plus_def)
qed

lemma process_lines_plus:
  assumes "same_file_but_stats fs gs" and "stats_plus base (file_stats gs) (file_stats fs)"
  shows "rel_sum (=)
           (\<lambda>fs' gs'. same_file_but_stats fs' gs' \<and> stats_plus base (file_stats gs') (file_stats fs'))
           (process_lines matcher allowed_env methods fs line_nr lines)
           (process_lines matcher allowed_env methods gs line_nr lines)"
  using assms
proof (induction lines arbitrary: fs gs line_nr)
  case Nil
  then show ?case by simp
next
  case (Cons line rest)
  from process_line_plus [OF Cons.prems, of matcher allowed_env methods line_nr line] Cons.IH
  show ?case
    by (cases "process_line matcher allowed_env methods fs line_nr line";
        cases "process_line matcher allowed_env methods gs line_nr line")
       simp_all
qed

lemma process_file_plus:
  assumes "process_file matcher allowed_env methods st tex_f = Inr (st', out)"
  shows "stats_plus (st\<lparr>edited_files := edited_files st + 1\<rparr>)
           (file_counts matcher allowed_env methods tex_f) st'"
proof -
  let ?base = "st\<lparr>edited_files := edited_files st + 1\<rparr>"
  let ?fs = "\<lparr>file_stats = ?base, file_last_line = [], count_env = [], tmp_f = []\<rparr>"
  let ?gs = "\<lparr>file_stats = initial_stats 0, file_last_line = [], count_env = [],
              tmp_f = []\<rparr>"
  have "same_file_but_stats ?fs ?gs" "stats_plus ?base (file_stats ?gs) (file_stats ?fs)"
    by (simp_all add: same_file_but_stats_def stats_plus_zero)
  from process_lines_plus [OF this, of matcher allowed_env methods 0 tex_f] assms
  show ?thesis
    by (cases "process_lines matcher allowed_env methods ?fs 0 tex_f";
        cases "process_lines matcher allowed_env methods ?gs 0 tex_f")
       (simp_all add: process_file_def Let_def file_counts_def)
qed

lemma file_counts_no_files:
  "edited_files (file_counts matcher allowed_env methods tex_f) = 0
   \<and> index_terms (file_counts matcher allowed_env methods tex_f) = 0"
proof (cases "process_lines matcher allowed_env methods
             \<lparr>file_stats = initial_stats 0, file_last_line = [], count_env = [], tmp_f = []\<rparr>
             0 tex_f")
  case (Inl e)
  then show ?thesis by (simp add: file_counts_def initial_stats_def)
next
  case (Inr fs)
  from process_lines_counts [OF Inr] Inr show ?thesis
    by (simp add: file_counts_def counts_grow_def initial_stats_def)
qed

lemma process_files_plus:
  assumes "process_files matcher allowed_env methods st files = Inr (st', outs)"
  shows "edited_files st' = edited_files st + int (length files)
    \<and> index_terms st' = index_terms st
    \<and> environment_blocks_skipped st' = environment_blocks_skipped st
        + sum_list (map (\<lambda>f. environment_blocks_skipped
                                (file_counts matcher allowed_env methods f)) files)
    \<and> invalid_matches st' = invalid_matches st
        + sum_list (map (\<lambda>f. invalid_matches (file_counts matcher allowed_env methods f)) files)
    \<and> indexed_matches st' = indexed_matches st
        + sum_list (map (\<lambda>f. indexed_matches (file_counts matcher allowed_env methods f)) files)
    \<and> (\<forall>k. dd_get 0 (annotation_distribution st') k = dd_get 0 (annotation_distribution st) k
        + sum_list (map (\<lambda>f. dd_get 0 (annotation_distribution
                                (file_counts matcher allowed_env methods f)) k) files))"
  using assms
proof (induction files arbitrary: st outs)
  case Nil
  then show ?case by simp
next
  case (Cons f files)
  then obtain st1 out outs1 where
    one: "process_file matcher allowed_env methods st f = Inr (st1, out)"
    and more: "process_files matcher allowed_env methods st1 files = Inr (st', outs1)"
    by (auto split: sum.splits)
  from process_file_plus [OF one] file_counts_no_files [of matcher allowed_env methods f]
  have "edited_files st1 = edited_files st + 1" "index_terms st1 = index_terms st"
    "environment_blocks_skipped st1 = environment_blocks_skipped st
       + environment_blocks_skipped (file_counts matcher allowed_env methods f)"
    "invalid_matches st1 = invalid_matches st
       + invalid_matches (file_counts matcher allowed_env methods f)"
    "indexed_matches st1 = indexed_matches st
       + indexed_matches (file_counts matcher allowed_env methods f)"
    "\<And>k. dd_get 0 (annotation_distribution st1) k = dd_get 0 (annotation_distribution st) k
       + dd_get 0 (annotation_distribution (file_counts matcher allowed_env methods f)) k"
    by (simp_all add: stats_plus_def)
  with Cons.IH [OF more] show ?case by simp
qed


text \<open>
  C4, as stated, fails: the statistics are created once, before the loop over the files,
  and no file resets them. After a second file with the same content every integer
  statistic is twice what the file alone gives.
\<close>

theorem statistics_reset_per_file_counterexample:
  "(case index_run (iter_long [(''foo'', ''foo'')]) 1 [''sloppypar''] None
           [[''a foo b'' @ [newline], ''{a foo b}'' @ [newline],
             begin_kw @ ''figure}'' @ [newline], ''foo'' @ [newline],
             end_kw @ ''figure}'' @ [newline]]] of
      Inl err \<Rightarrow> False
    | Inr (st, outs) \<Rightarrow>
        edited_files st = 1 \<and> indexed_matches st = 1 \<and> invalid_matches st = 1
        \<and> environment_blocks_skipped st = 2)
   \<and> (case index_run (iter_long [(''foo'', ''foo'')]) 1 [''sloppypar''] None
           [[''a foo b'' @ [newline], ''{a foo b}'' @ [newline],
             begin_kw @ ''figure}'' @ [newline], ''foo'' @ [newline],
             end_kw @ ''figure}'' @ [newline]],
            [''a foo b'' @ [newline], ''{a foo b}'' @ [newline],
             begin_kw @ ''figure}'' @ [newline], ''foo'' @ [newline],
             end_kw @ ''figure}'' @ [newline]]] of
      Inl err \<Rightarrow> False
    | Inr (st, outs) \<Rightarrow>
        edited_files st = 2 \<and> indexed_matches st = 2 \<and> invalid_matches st = 2
        \<and> environment_blocks_skipped st = 4)"
  by code_simp

text \<open>
  C4 (amended). Each file starts with an empty last-annotated-line map and empty
  environment counters: the lines written for a file are those that processing the file
  alone writes, from any statistics. The statistics are not reset: after the files of a
  run the count of edited files is its value before plus the number of files, and every
  other count and every concept's frequency is its value before plus the sum, over the
  files, of what the lines of each file count on their own.
\<close>

theorem statistics_accumulate_over_files:
  "process_files matcher allowed_env methods st files = Inr (st', outs)
   \<longrightarrow> edited_files st' = edited_files st + int (length files)
       \<and> index_terms st' = index_terms st
       \<and> environment_blocks_skipped st' = environment_blocks_skipped st
           + sum_list (map (\<lambda>f. environment_blocks_skipped
                                   (file_counts matcher allowed_env methods f)) files)
       \<and> invalid_matches st' = invalid_matches st
           + sum_list (map (\<lambda>f. invalid_matches
                                   (file_counts matcher allowed_env methods f)) files)
       \<and> indexed_matches st' = indexed_matches st
           + sum_list (map (\<lambda>f. indexed_matches
                                   (file_counts matcher allowed_env methods f)) files)
       \<and> (\<forall>k. dd_get 0 (annotation_distribution st') k =
                dd_get 0 (annotation_distribution st) k
                  + sum_list (map (\<lambda>f. dd_get 0 (annotation_distribution
                                   (file_counts matcher allowed_env methods f)) k) files))
       \<and> list_all2
            (\<lambda>f out. \<exists>st1. process_file matcher allowed_env methods st0 f = Inr (st1, out))
            files outs"
proof
  assume run: "process_files matcher allowed_env methods st files = Inr (st', outs)"
  from process_files_plus [OF run] process_files_each_alone [OF run, of st0]
  show "edited_files st' = edited_files st + int (length files)
       \<and> index_terms st' = index_terms st
       \<and> environment_blocks_skipped st' = environment_blocks_skipped st
           + sum_list (map (\<lambda>f. environment_blocks_skipped
                                   (file_counts matcher allowed_env methods f)) files)
       \<and> invalid_matches st' = invalid_matches st
           + sum_list (map (\<lambda>f. invalid_matches
                                   (file_counts matcher allowed_env methods f)) files)
       \<and> indexed_matches st' = indexed_matches st
           + sum_list (map (\<lambda>f. indexed_matches
                                   (file_counts matcher allowed_env methods f)) files)
       \<and> (\<forall>k. dd_get 0 (annotation_distribution st') k =
                dd_get 0 (annotation_distribution st) k
                  + sum_list (map (\<lambda>f. dd_get 0 (annotation_distribution
                                   (file_counts matcher allowed_env methods f)) k) files))
       \<and> list_all2
            (\<lambda>f out. \<exists>st1. process_file matcher allowed_env methods st0 f = Inr (st1, out))
            files outs"
    by blast
qed

theorem statistics_accumulate_over_files_witness:
  "process_files (iter_long [(''foo'', ''foo'')]) [''sloppypar''] (Some [''dist''])
       (initial_stats 1)
       [[''a foo b'' @ [newline], ''{a foo b}'' @ [newline]],
        [''a foo b'' @ [newline], ''{a foo b}'' @ [newline]]]
     = Inr (\<lparr>index_terms = 1, edited_files = 2, environment_blocks_skipped = 0,
              invalid_matches = 2, indexed_matches = 2,
              annotation_distribution = [(''foo'', 2)]\<rparr>,
            [[''a foo'' @ annotation ''foo'' @ '' b'' @ [newline], ''{a foo b}'' @ [newline]],
             [''a foo'' @ annotation ''foo'' @ '' b'' @ [newline], ''{a foo b}'' @ [newline]]])
   \<and> file_counts (iter_long [(''foo'', ''foo'')]) [''sloppypar''] (Some [''dist''])
        [''a foo b'' @ [newline], ''{a foo b}'' @ [newline]]
     = \<lparr>index_terms = 0, edited_files = 0, environment_blocks_skipped = 0,
        invalid_matches = 1, indexed_matches = 1,
        annotation_distribution = [(''foo'', 1)]\<rparr>
   \<and> indexed_matches \<lparr>index_terms = 1, edited_files = 2, environment_blocks_skipped = 0,
              invalid_matches = 2, indexed_matches = 2,
              annotation_distribution = [(''foo'', 2)]\<rparr>
       = indexed_matches (initial_stats 1) + (1 + 1)
   \<and> invalid_matches \<lparr>index_terms = 1, edited_files = 2, environment_blocks_skipped = 0,
              invalid_matches = 2, indexed_matches = 2,
              annotation_distribution = [(''foo'', 2)]\<rparr>
       = invalid_matches (initial_stats 1) + (1 + 1)
   \<and> (\<exists>st1. process_file (iter_long [(''foo'', ''foo'')]) [''sloppypar''] (Some [''dist''])
         (initial_stats 7) [''a foo b'' @ [newline], ''{a foo b}'' @ [newline]]
        = Inr (st1, [''a foo'' @ annotation ''foo'' @ '' b'' @ [newline],
                     ''{a foo b}'' @ [newline]]))"
proof -
  let ?f = "[''a foo b'' @ [newline], ''{a foo b}'' @ [newline]]"
  let ?st' = "\<lparr>index_terms = 1, edited_files = 2, environment_blocks_skipped = 0,
              invalid_matches = 2, indexed_matches = 2,
              annotation_distribution = [(''foo'', 2)]\<rparr>"
  let ?d = "\<lparr>index_terms = 0, edited_files = 0, environment_blocks_skipped = 0,
        invalid_matches = 1, indexed_matches = 1,
        annotation_distribution = [(''foo'', 1)]\<rparr>"
  have run: "process_files (iter_long [(''foo'', ''foo'')]) [''sloppypar''] (Some [''dist''])
       (initial_stats 1) [?f, ?f]
     = Inr (?st',
            [[''a foo'' @ annotation ''foo'' @ '' b'' @ [newline], ''{a foo b}'' @ [newline]],
             [''a foo'' @ annotation ''foo'' @ '' b'' @ [newline], ''{a foo b}'' @ [newline]]])"
    by code_simp
  have counts: "file_counts (iter_long [(''foo'', ''foo'')]) [''sloppypar''] (Some [''dist'']) ?f
      = ?d"
    by code_simp
  note sums = statistics_accumulate_over_files
      [where ?st0.0 = "initial_stats 7", THEN mp, OF run, unfolded list.map counts]
  from sums have "indexed_matches ?st' = indexed_matches (initial_stats 1) + (1 + 1)"
    and "invalid_matches ?st' = invalid_matches (initial_stats 1) + (1 + 1)"
    and "\<exists>st1. process_file (iter_long [(''foo'', ''foo'')]) [''sloppypar''] (Some [''dist''])
         (initial_stats 7) ?f
        = Inr (st1, [''a foo'' @ annotation ''foo'' @ '' b'' @ [newline],
                     ''{a foo b}'' @ [newline]])"
    by simp_all
  with run counts show ?thesis by blast
qed

section \<open>Offset correction within one line\<close>

lemma markers_length_simps [simp]:
  "markers_length [] = 0"
  "markers_length ((e, c) # acc) = int (length (annotation c)) + markers_length acc"
  by (simp_all add: markers_length_def)

lemma annotate_match_shift:
  "annotate_match methods line_nr s (e, m, c) =
     map_sum id
       (\<lambda>s'. s'\<lparr>total_annotation_length :=
                  total_annotation_length s' + total_annotation_length s\<rparr>)
       (annotate_match methods line_nr (s\<lparr>total_annotation_length := 0\<rparr>)
          (e + total_annotation_length s, m, c))"
  by (simp add: annotate_match.simps Let_def count_invalid_def read_distribution_def
        read_last_line_def insert_annotation_def split: sum.splits)

lemma annotate_matches_reconstruct:
  assumes "cur_line s = X @ drop p line"
    and "int (length X) = int p + total_annotation_length s"
    and "sorted_wrt (<) (map fst xs)"
    and "\<forall>x \<in> set xs. int p \<le> fst x + 1"
    and "annotate_matches methods line_nr s xs = Inr s'"
  shows "cur_line s' = X @ reconstruct p line (accepted methods line_nr s xs)
    \<and> total_annotation_length s' =
        total_annotation_length s + markers_length (accepted methods line_nr s xs)
    \<and> indexed_matches (cur_stats s') =
        indexed_matches (cur_stats s) + int (length (accepted methods line_nr s xs))"
  using assms
proof (induction xs arbitrary: s X p)
  case Nil
  then show ?case by simp
next
  case (Cons x xs)
  obtain e m c where x: "x = (e, m, c)" by (cases x) auto
  from Cons.prems(5) obtain s1 where
    s1: "annotate_match methods line_nr s (e, m, c) = Inr s1"
    and rest: "annotate_matches methods line_nr s1 xs = Inr s'"
    by (auto simp: x split: sum.splits)
  from Cons.prems(3) have sorted: "sorted_wrt (<) (map fst xs)"
    and later: "\<forall>y \<in> set xs. e < fst y"
    by (auto simp: x)
  from Cons.prems(4) have pe: "int p \<le> e + 1" by (simp add: x)
  let ?E = "e + total_annotation_length s"
  let ?k = "nat (e + 1) - p"
  let ?s2 = "read_last_line c (read_distribution c s)"
  from annotate_match_result [OF s1]
  consider (same) "cur_line s1 = cur_line s"
      "total_annotation_length s1 = total_annotation_length s"
      "indexed_matches (cur_stats s1) = indexed_matches (cur_stats s)"
    | (marked) a where "s1 = insert_annotation line_nr ?E c ?s2"
      "py_index (cur_line s) (?E + 1) = Inr a"
    by (elim disjE conjE exE) auto
  then show ?case
  proof cases
    case same
    have "\<forall>y \<in> set xs. int p \<le> fst y + 1" using Cons.prems(4) by simp
    from Cons.IH [OF _ _ sorted this rest, of X] Cons.prems(1,2) same
    have "cur_line s' = X @ reconstruct p line (accepted methods line_nr s1 xs)
      \<and> total_annotation_length s' =
          total_annotation_length s + markers_length (accepted methods line_nr s1 xs)
      \<and> indexed_matches (cur_stats s') =
          indexed_matches (cur_stats s) + int (length (accepted methods line_nr s1 xs))"
      by simp
    moreover have "accepted methods line_nr s (x # xs) = accepted methods line_nr s1 xs"
      using s1 same by (simp add: x)
    ultimately show ?thesis by simp
  next
    case marked
    have pos: "?E + 1 = int (length X) + int ?k"
      using Cons.prems(2) pe by simp
    then have nonneg: "0 \<le> ?E + 1" by simp
    with marked(2) have inside: "?E + 1 < int (length (cur_line s))"
      by (simp add: py_index_nonneg split: if_splits)
    have cut: "nat (?E + 1) = length X + ?k" using pos by simp
    from inside pos Cons.prems(1) have k: "?k < length (drop p line)" by simp
    have kp: "?k + p = nat (e + 1)" using pe by simp
    let ?X' = "X @ take ?k (drop p line) @ annotation c"
    have line1: "cur_line s1 = ?X' @ drop (nat (e + 1)) line"
      using marked(1) nonneg Cons.prems(1) cut kp
      by (simp add: py_slice_to_nonneg py_slice_from_nonneg)
    have total1: "total_annotation_length s1 =
        total_annotation_length s + int (length (annotation c))"
      using marked(1) by simp
    have len1: "int (length ?X') = int (nat (e + 1)) + total_annotation_length s1"
      using k Cons.prems(2) pe total1 by (simp add: min_def)
    have later1: "\<forall>y \<in> set xs. int (nat (e + 1)) \<le> fst y + 1"
      using later pe by auto
    have idx1: "indexed_matches (cur_stats s1) = indexed_matches (cur_stats s) + 1"
      using marked(1) by simp
    have acc: "accepted methods line_nr s (x # xs) = (e, c) # accepted methods line_nr s1 xs"
      using s1 idx1 by (simp add: x)
    from Cons.IH [OF line1 len1 sorted later1 rest]
    show ?thesis
      unfolding acc using total1 idx1 by simp
  qed
qed


lemma annotate_matches_append:
  "annotate_matches methods line_nr s (xs @ ys) =
     (case annotate_matches methods line_nr s xs of
        Inl e \<Rightarrow> Inl e
      | Inr s1 \<Rightarrow> annotate_matches methods line_nr s1 ys)"
  by (induction xs arbitrary: s) (auto split: sum.splits)

lemma accepted_append:
  "accepted methods line_nr s (ys @ zs) =
     (case annotate_matches methods line_nr s ys of
        Inl e \<Rightarrow> accepted methods line_nr s ys
      | Inr s1 \<Rightarrow> accepted methods line_nr s ys @ accepted methods line_nr s1 zs)"
  by (induction ys arbitrary: s) (auto split: sum.splits)

lemma annotate_match_marks_iff:
  assumes "annotate_match methods line_nr s (e, m, c) = Inr s'"
  shows "indexed_matches (cur_stats s') \<noteq> indexed_matches (cur_stats s) \<longleftrightarrow>
         marker_due methods line_nr (cur_line s) (e + total_annotation_length s)
           (dd_get (- 1) (last_line s) c) m c"
proof (cases "is_invalid_match (cur_line s)
      (e + total_annotation_length s - int (length m) + 1) (e + total_annotation_length s) c")
  case True
  with assms show ?thesis by (auto simp: annotate_match_invalid marker_due_def)
next
  case False
  from assms show ?thesis
    unfolding annotate_match_valid [OF False]
    using False by (auto simp: marker_due_def split: sum.splits if_splits)
qed

lemma annotate_matches_last_line:
  assumes "annotate_matches methods line_nr s xs = Inr s'"
  shows "dd_get (- 1) (last_line s') k =
         (if k \<in> snd ` set (accepted methods line_nr s xs) then line_nr
          else dd_get (- 1) (last_line s) k)"
  using assms
proof (induction xs arbitrary: s)
  case Nil
  then show ?case by simp
next
  case (Cons x xs)
  obtain e m c where x: "x = (e, m, c)" by (cases x) auto
  from Cons.prems obtain s1 where
    s1: "annotate_match methods line_nr s (e, m, c) = Inr s1"
    and rest: "annotate_matches methods line_nr s1 xs = Inr s'"
    by (auto simp: x split: sum.splits)
  note IH = Cons.IH [OF rest]
  from annotate_match_result [OF s1]
  consider (same) "indexed_matches (cur_stats s1) = indexed_matches (cur_stats s)"
      "dd_get (- 1) (last_line s1) k = dd_get (- 1) (last_line s) k"
    | (marked) "indexed_matches (cur_stats s1) \<noteq> indexed_matches (cur_stats s)"
      "dd_get (- 1) (last_line s1) k = (if k = c then line_nr else dd_get (- 1) (last_line s) k)"
    by (elim disjE conjE exE) (auto simp: dd_get_set)
  then show ?case
  proof cases
    case same
    then have "accepted methods line_nr s (x # xs) = accepted methods line_nr s1 xs"
      using s1 by (simp add: x)
    with IH same show ?thesis by simp
  next
    case marked
    then have "accepted methods line_nr s (x # xs) = (e, c) # accepted methods line_nr s1 xs"
      using s1 by (simp add: x)
    with IH marked show ?thesis by auto
  qed
qed

lemma accepted_is_markers_due:
  assumes "sorted_wrt (<) (map fst xs)" and "\<forall>x \<in> set xs. 0 \<le> fst x"
    and "annotate_matches methods line_nr
           \<lparr>cur_line = line, total_annotation_length = 0, cur_stats = st, last_line = ll\<rparr> xs
         = Inr s'"
  shows "accepted methods line_nr
           \<lparr>cur_line = line, total_annotation_length = 0, cur_stats = st, last_line = ll\<rparr> xs
         = markers_due methods line_nr line (dd_get (- 1) ll) xs"
  using assms
proof (induction xs arbitrary: s' rule: rev_induct)
  case Nil
  then show ?case by (simp add: markers_due_def)
next
  case (snoc x ys)
  let ?s0 = "\<lparr>cur_line = line, total_annotation_length = 0, cur_stats = st, last_line = ll\<rparr>"
  obtain e m c where x: "x = (e, m, c)" by (cases x) auto
  from snoc.prems(3) obtain s1 where
    s1: "annotate_matches methods line_nr ?s0 ys = Inr s1"
    and last: "annotate_match methods line_nr s1 (e, m, c) = Inr s'"
    by (auto simp: annotate_matches_append x split: sum.splits)
  from snoc.prems(1) have sorted: "sorted_wrt (<) (map fst ys)"
    by (simp add: sorted_wrt_append)
  from snoc.prems(2) have nonneg: "\<forall>y \<in> set ys. 0 \<le> fst y" by simp
  then have nonneg': "\<forall>y \<in> set ys. int 0 \<le> fst y + 1" by auto
  define acc where "acc = markers_due methods line_nr line (dd_get (- 1) ll) ys"
  from snoc.IH [OF sorted nonneg s1]
  have acc: "accepted methods line_nr ?s0 ys = acc" by (simp add: acc_def)
  have start: "cur_line ?s0 = [] @ drop 0 line"
    "int (length ([] :: string)) = int 0 + total_annotation_length ?s0"
    by simp_all
  from annotate_matches_reconstruct [OF start sorted nonneg' s1]
  have line1: "cur_line s1 = reconstruct 0 line acc"
    and total1: "total_annotation_length s1 = markers_length acc"
    by (simp_all add: acc)
  from annotate_matches_last_line [OF s1, of c]
  have last1: "dd_get (- 1) (last_line s1) c =
      (if c \<in> snd ` set acc then line_nr else dd_get (- 1) ll c)"
    by (simp add: acc)
  have "accepted methods line_nr ?s0 (ys @ [x]) =
      acc @ (if indexed_matches (cur_stats s') = indexed_matches (cur_stats s1) then []
             else [(e, c)])"
    using s1 last by (simp add: accepted_append acc x)
  also have "\<dots> = markers_step methods line_nr line (dd_get (- 1) ll) acc x"
  proof -
    let ?due = "marker_due methods line_nr (reconstruct 0 line acc) (e + markers_length acc)
      (if c \<in> snd ` set acc then line_nr else dd_get (- 1) ll c) m c"
    from annotate_match_marks_iff [OF last]
    have iff: "indexed_matches (cur_stats s') \<noteq> indexed_matches (cur_stats s1) \<longleftrightarrow> ?due"
      by (simp only: line1 total1 last1)
    have step: "markers_step methods line_nr line (dd_get (- 1) ll) acc x =
        (if ?due then acc @ [(e, c)] else acc)"
      by (simp add: markers_step_def x)
    show ?thesis
      unfolding step using iff by (cases ?due) simp_all
  qed
  also have "\<dots> = markers_due methods line_nr line (dd_get (- 1) ll) (ys @ [x])"
    by (simp add: markers_due_def acc_def)
  finally show ?case .
qed


text \<open>
  C1. Let the matcher report end offsets that increase from left to right on a line, and
  let the loop over them return. Then the line written is the line as it was read, cut
  after the reported end offset of each match that is due a marker, with the markers put
  at the cuts in order; the running length is the total length of these markers and the
  count of indexed matches grows by their number. Which matches are due a marker is
  decided on the rebuilt line at the reported offset plus the length of the markers
  before it. At any match of the list, the state the loop has reached carries that line
  and that length, and the iteration on a state with running length \<open>t\<close> and reported
  offset \<open>e\<close> is the iteration with running length 0 and reported offset \<open>e + t\<close>:
  validation, boundary check and insertion all use the corrected offset. A line outside
  every tracked environment is written to the output rebuilt in this way.
\<close>

theorem offset_correction_rebuilds_line:
  "(sorted_wrt (<) (map fst xs) \<and> (\<forall>x \<in> set xs. 0 \<le> fst x)
      \<and> annotate_matches methods line_nr
           \<lparr>cur_line = line, total_annotation_length = 0, cur_stats = st, last_line = ll\<rparr> xs
         = Inr s'
    \<longrightarrow> cur_line s' =
          reconstruct 0 line (markers_due methods line_nr line (dd_get (- 1) ll) xs)
        \<and> total_annotation_length s' =
          markers_length (markers_due methods line_nr line (dd_get (- 1) ll) xs)
        \<and> indexed_matches (cur_stats s') =
          indexed_matches st
            + int (length (markers_due methods line_nr line (dd_get (- 1) ll) xs)))
   \<and> (sorted_wrt (<) (map fst (xs1 @ x # xs2)) \<and> (\<forall>y \<in> set (xs1 @ x # xs2). 0 \<le> fst y)
      \<and> annotate_matches methods line_nr
           \<lparr>cur_line = line, total_annotation_length = 0, cur_stats = st, last_line = ll\<rparr>
           (xs1 @ x # xs2)
         = Inr s'
    \<longrightarrow> (\<exists>s1 s2.
          annotate_matches methods line_nr
            \<lparr>cur_line = line, total_annotation_length = 0, cur_stats = st, last_line = ll\<rparr> xs1
          = Inr s1
          \<and> cur_line s1 =
              reconstruct 0 line (markers_due methods line_nr line (dd_get (- 1) ll) xs1)
          \<and> total_annotation_length s1 =
              markers_length (markers_due methods line_nr line (dd_get (- 1) ll) xs1)
          \<and> annotate_match methods line_nr s1 x = Inr s2
          \<and> annotate_matches methods line_nr s2 xs2 = Inr s'))
   \<and> annotate_match methods line_nr s (e, m, c) =
       map_sum id
         (\<lambda>s'. s'\<lparr>total_annotation_length :=
                    total_annotation_length s' + total_annotation_length s\<rparr>)
         (annotate_match methods line_nr (s\<lparr>total_annotation_length := 0\<rparr>)
            (e + total_annotation_length s, m, c))
   \<and> (\<not> is_inside_env (check_end line (check_begin line (count_env fs) allowed_env) allowed_env)
      \<and> sorted_wrt (<) (map fst (matcher line)) \<and> (\<forall>y \<in> set (matcher line). 0 \<le> fst y)
      \<and> process_line matcher allowed_env methods fs line_nr line = Inr fs'
    \<longrightarrow> tmp_f fs' =
          tmp_f fs @ [reconstruct 0 line
            (markers_due methods line_nr line (dd_get (- 1) (file_last_line fs)) (matcher line))]
        \<and> indexed_matches (file_stats fs') =
          indexed_matches (file_stats fs)
            + int (length (markers_due methods line_nr line
                 (dd_get (- 1) (file_last_line fs)) (matcher line))))"
proof (intro conjI impI)
  let ?s0 = "\<lparr>cur_line = line, total_annotation_length = 0, cur_stats = st, last_line = ll\<rparr>"
  assume h: "sorted_wrt (<) (map fst xs) \<and> (\<forall>x \<in> set xs. 0 \<le> fst x)
      \<and> annotate_matches methods line_nr ?s0 xs = Inr s'"
  then have sorted: "sorted_wrt (<) (map fst xs)"
    and nonneg: "\<forall>x \<in> set xs. 0 \<le> fst x"
    and nonneg': "\<forall>x \<in> set xs. int 0 \<le> fst x + 1"
    and run: "annotate_matches methods line_nr ?s0 xs = Inr s'"
    by auto
  have start: "cur_line ?s0 = [] @ drop 0 line"
    "int (length ([] :: string)) = int 0 + total_annotation_length ?s0"
    by simp_all
  note due = accepted_is_markers_due [OF sorted nonneg run]
  from annotate_matches_reconstruct [OF start sorted nonneg' run]
  show "cur_line s' =
          reconstruct 0 line (markers_due methods line_nr line (dd_get (- 1) ll) xs)"
    and "total_annotation_length s' =
          markers_length (markers_due methods line_nr line (dd_get (- 1) ll) xs)"
    and "indexed_matches (cur_stats s') =
          indexed_matches st
            + int (length (markers_due methods line_nr line (dd_get (- 1) ll) xs))"
    by (simp_all add: due)
next
  let ?s0 = "\<lparr>cur_line = line, total_annotation_length = 0, cur_stats = st, last_line = ll\<rparr>"
  assume h: "sorted_wrt (<) (map fst (xs1 @ x # xs2))
      \<and> (\<forall>y \<in> set (xs1 @ x # xs2). 0 \<le> fst y)
      \<and> annotate_matches methods line_nr ?s0 (xs1 @ x # xs2) = Inr s'"
  then have sorted: "sorted_wrt (<) (map fst xs1)"
    and nonneg: "\<forall>y \<in> set xs1. 0 \<le> fst y"
    and nonneg': "\<forall>y \<in> set xs1. int 0 \<le> fst y + 1"
    by (auto simp: sorted_wrt_append)
  from h obtain s1 s2 where
    s1: "annotate_matches methods line_nr ?s0 xs1 = Inr s1"
    and s2: "annotate_match methods line_nr s1 x = Inr s2"
    and rest: "annotate_matches methods line_nr s2 xs2 = Inr s'"
    by (auto simp: annotate_matches_append split: sum.splits)
  have start: "cur_line ?s0 = [] @ drop 0 line"
    "int (length ([] :: string)) = int 0 + total_annotation_length ?s0"
    by simp_all
  note due = accepted_is_markers_due [OF sorted nonneg s1]
  from annotate_matches_reconstruct [OF start sorted nonneg' s1]
  have "cur_line s1 =
          reconstruct 0 line (markers_due methods line_nr line (dd_get (- 1) ll) xs1)"
    and "total_annotation_length s1 =
          markers_length (markers_due methods line_nr line (dd_get (- 1) ll) xs1)"
    by (simp_all add: due)
  with s1 s2 rest
  show "\<exists>s1 s2. annotate_matches methods line_nr ?s0 xs1 = Inr s1
          \<and> cur_line s1 =
              reconstruct 0 line (markers_due methods line_nr line (dd_get (- 1) ll) xs1)
          \<and> total_annotation_length s1 =
              markers_length (markers_due methods line_nr line (dd_get (- 1) ll) xs1)
          \<and> annotate_match methods line_nr s1 x = Inr s2
          \<and> annotate_matches methods line_nr s2 xs2 = Inr s'"
    by blast
next
  show "annotate_match methods line_nr s (e, m, c) =
       map_sum id
         (\<lambda>s'. s'\<lparr>total_annotation_length :=
                    total_annotation_length s' + total_annotation_length s\<rparr>)
         (annotate_match methods line_nr (s\<lparr>total_annotation_length := 0\<rparr>)
            (e + total_annotation_length s, m, c))"
    by (rule annotate_match_shift)
next
  let ?s0 = "\<lparr>cur_line = line, total_annotation_length = 0,
              cur_stats = file_stats fs, last_line = file_last_line fs\<rparr>"
  assume h: "\<not> is_inside_env
        (check_end line (check_begin line (count_env fs) allowed_env) allowed_env)
      \<and> sorted_wrt (<) (map fst (matcher line)) \<and> (\<forall>y \<in> set (matcher line). 0 \<le> fst y)
      \<and> process_line matcher allowed_env methods fs line_nr line = Inr fs'"
  then have sorted: "sorted_wrt (<) (map fst (matcher line))"
    and nonneg: "\<forall>y \<in> set (matcher line). 0 \<le> fst y"
    and nonneg': "\<forall>y \<in> set (matcher line). int 0 \<le> fst y + 1"
    by auto
  from h obtain s' where
    run: "annotate_matches methods line_nr ?s0 (matcher line) = Inr s'"
    and out: "tmp_f fs' = tmp_f fs @ [cur_line s']"
    and stats: "file_stats fs' = cur_stats s'"
    by (auto simp: process_line_def Let_def split: sum.splits)
  have start: "cur_line ?s0 = [] @ drop 0 line"
    "int (length ([] :: string)) = int 0 + total_annotation_length ?s0"
    by simp_all
  note due = accepted_is_markers_due [OF sorted nonneg run]
  from annotate_matches_reconstruct [OF start sorted nonneg' run] out stats
  show "tmp_f fs' =
          tmp_f fs @ [reconstruct 0 line
            (markers_due methods line_nr line (dd_get (- 1) (file_last_line fs)) (matcher line))]"
    and "indexed_matches (file_stats fs') =
          indexed_matches (file_stats fs)
            + int (length (markers_due methods line_nr line
                 (dd_get (- 1) (file_last_line fs)) (matcher line)))"
    by (simp_all add: due)
qed


theorem offset_correction_rebuilds_line_witness:
  "markers_due (Some [''dist'']) 3 (''a foo b foo c'' @ [newline]) (dd_get (- 1) [])
      [(4, ''foo'', ''foo''), (10, ''foo'', ''foo'')] = [(4, ''foo'')]
   \<and> annotate_matches (Some [''dist'']) 3
        \<lparr>cur_line = ''a foo b foo c'' @ [newline], total_annotation_length = 0,
         cur_stats = initial_stats 1, last_line = []\<rparr>
        [(4, ''foo'', ''foo''), (10, ''foo'', ''foo'')]
     = Inr \<lparr>cur_line = ''a foo'' @ annotation ''foo'' @ '' b foo c'' @ [newline],
            total_annotation_length = 11,
            cur_stats = (initial_stats 1)
              \<lparr>indexed_matches := 1, annotation_distribution := [(''foo'', 1)]\<rparr>,
            last_line = [(''foo'', 3)]\<rparr>
   \<and> reconstruct 0 (''a foo b foo c'' @ [newline]) [(4, ''foo'')]
     = ''a foo'' @ annotation ''foo'' @ '' b foo c'' @ [newline]
   \<and> process_line (iter_long [(''foo'', ''foo''), (''bar'', ''bar'')]) [''sloppypar''] None
        \<lparr>file_stats = initial_stats 2, file_last_line = [], count_env = [], tmp_f = []\<rparr> 3
        (''a foo b bar c'' @ [newline])
     = Inr \<lparr>file_stats = (initial_stats 2)
              \<lparr>indexed_matches := 2,
               annotation_distribution := [(''foo'', 1), (''bar'', 1)]\<rparr>,
            file_last_line = [(''foo'', 3), (''bar'', 3)], count_env = [],
            tmp_f = [''a foo'' @ annotation ''foo'' @ '' b bar'' @ annotation ''bar''
                      @ '' c'' @ [newline]]\<rparr>
   \<and> reconstruct 0 (''a foo b bar c'' @ [newline])
        (markers_due None 3 (''a foo b bar c'' @ [newline]) (dd_get (- 1) [])
           (iter_long [(''foo'', ''foo''), (''bar'', ''bar'')] (''a foo b bar c'' @ [newline])))
     = ''a foo'' @ annotation ''foo'' @ '' b bar'' @ annotation ''bar'' @ '' c'' @ [newline]"
proof -
  let ?line = "''a foo b foo c'' @ [newline]"
  let ?s0 = "\<lparr>cur_line = ?line, total_annotation_length = 0,
         cur_stats = initial_stats 1, last_line = []\<rparr>"
  let ?xs = "[(4, ''foo'', ''foo''), (10, ''foo'', ''foo'')] :: match list"
  let ?s' = "\<lparr>cur_line = ''a foo'' @ annotation ''foo'' @ '' b foo c'' @ [newline],
            total_annotation_length = 11,
            cur_stats = (initial_stats 1)
              \<lparr>indexed_matches := 1, annotation_distribution := [(''foo'', 1)]\<rparr>,
            last_line = [(''foo'', 3)]\<rparr>"
  let ?matcher = "iter_long [(''foo'', ''foo''), (''bar'', ''bar'')]"
  let ?line2 = "''a foo b bar c'' @ [newline]"
  let ?fs = "\<lparr>file_stats = initial_stats 2, file_last_line = [], count_env = [],
              tmp_f = []\<rparr>"
  let ?fs' = "\<lparr>file_stats = (initial_stats 2)
              \<lparr>indexed_matches := 2,
               annotation_distribution := [(''foo'', 1), (''bar'', 1)]\<rparr>,
            file_last_line = [(''foo'', 3), (''bar'', 3)], count_env = [],
            tmp_f = [''a foo'' @ annotation ''foo'' @ '' b bar'' @ annotation ''bar''
                      @ '' c'' @ [newline]]\<rparr>"
  have run: "annotate_matches (Some [''dist'']) 3 ?s0 ?xs = Inr ?s'" by code_simp
  have due: "markers_due (Some [''dist'']) 3 ?line (dd_get (- 1) []) ?xs = [(4, ''foo'')]"
    by code_simp
  have ante: "sorted_wrt (<) (map fst ?xs) \<and> (\<forall>x \<in> set ?xs. 0 \<le> fst x)
      \<and> annotate_matches (Some [''dist'']) 3 ?s0 ?xs = Inr ?s'"
    using run by simp
  from offset_correction_rebuilds_line
         [where xs = ?xs and methods = "Some [''dist'']" and line_nr = 3
            and line = ?line and st = "initial_stats 1"
            and ll = "[]" and s' = ?s', THEN conjunct1, THEN mp, OF ante]
  have first: "cur_line ?s' =
      reconstruct 0 ?line (markers_due (Some [''dist'']) 3 ?line (dd_get (- 1) []) ?xs)"
    by (rule conjunct1)
  have reported: "?matcher ?line2 = [(4, ''foo'', ''foo''), (10, ''bar'', ''bar'')]"
    by code_simp
  have order: "sorted_wrt (<) (map fst (?matcher ?line2))
      \<and> (\<forall>y \<in> set (?matcher ?line2). 0 \<le> fst y)"
    unfolding reported by simp
  have outside: "\<not> is_inside_env
      (check_end ?line2 (check_begin ?line2 (count_env ?fs) [''sloppypar'']) [''sloppypar''])"
    by code_simp
  have written: "process_line ?matcher [''sloppypar''] None ?fs 3 ?line2 = Inr ?fs'"
    by code_simp
  have ante2: "\<not> is_inside_env
        (check_end ?line2 (check_begin ?line2 (count_env ?fs) [''sloppypar'']) [''sloppypar''])
      \<and> sorted_wrt (<) (map fst (?matcher ?line2)) \<and> (\<forall>y \<in> set (?matcher ?line2). 0 \<le> fst y)
      \<and> process_line ?matcher [''sloppypar''] None ?fs 3 ?line2 = Inr ?fs'"
    using outside written order by blast
  from offset_correction_rebuilds_line
         [where matcher = ?matcher and methods = None and line_nr = 3 and line = ?line2
            and fs = ?fs and fs' = ?fs' and allowed_env = "[''sloppypar'']",
          THEN conjunct2, THEN conjunct2, THEN conjunct2, THEN mp, OF ante2]
  have second: "tmp_f ?fs' = tmp_f ?fs @ [reconstruct 0 ?line2
      (markers_due None 3 ?line2 (dd_get (- 1) (file_last_line ?fs)) (?matcher ?line2))]"
    by (rule conjunct1)
  from run due first written second show ?thesis by simp
qed

end
